theory Spec2Isabelle
  imports Complex_Main "HOL-Library.Word" "HOL-Library.Multiset"
begin

section \<open>Memory model\<close>

text \<open>
  The queue of \<^verbatim>\<open>lockfree_pq.hpp\<close> is modelled in its sequential semantics: one thread
  runs each operation to its end, every atomic load, store and compare-and-swap acting
  on an explicit heap. A pointer is \<open>None\<close> (\<^verbatim>\<open>nullptr\<close>) or the address of a heap
  cell; the heap is a list of cells indexed by address, a cell being \<open>None\<close> once it is
  deleted. \<^verbatim>\<open>new\<close> takes the next address, and fails once \<open>mem_left\<close> is used up.

  Everything C++ leaves undefined is a \<open>fault\<close>: dereferencing \<^verbatim>\<open>nullptr\<close>, reading a
  deleted node, reading a slot of \<^verbatim>\<open>next[]\<close> that no constructor initialised (the
  build is C++17, where a default-constructed \<^verbatim>\<open>std::atomic\<close> is indeterminate),
  indexing an array beyond its end. \<open>Terminated\<close> is \<^verbatim>\<open>std::terminate\<close>, which is what
  an exception leaving a \<^verbatim>\<open>noexcept\<close> function calls.
\<close>

type_synonym addr = nat
type_synonym ptr = "addr option"

datatype fault = NullDeref | UseAfterFree | UninitRead | OutOfBounds | Terminated

definition MaxLevel :: nat where
  "MaxLevel = 16"

definition Probability :: real where
  "Probability = 1 / 2"

definition MAX_HAZARD_POINTERS :: nat where
  "MAX_HAZARD_POINTERS = 128"

text \<open>
  \<^verbatim>\<open>struct Node\<close>, with \<^verbatim>\<open>T = int\<close> as \<^verbatim>\<open>main.cpp\<close> instantiates it. \<open>nexts\<close> holds
  the slots \<^verbatim>\<open>next[0..level]\<close> that the constructor stored \<^verbatim>\<open>nullptr\<close> into; the
  slots above, up to \<^verbatim>\<open>next[MaxLevel]\<close>, exist and are indeterminate.
\<close>

record node =
  val :: int
  topLevel :: nat
  nexts :: "ptr list"
  marked :: bool
  fullyLinked :: bool

definition Node_sentinel :: "nat \<Rightarrow> node" where
  "Node_sentinel level =
     \<lparr>val = 0, topLevel = level, nexts = replicate (Suc level) None,
      marked = False, fullyLinked = False\<rparr>"

definition Node_value :: "int \<Rightarrow> nat \<Rightarrow> node" where
  "Node_value v level =
     \<lparr>val = v, topLevel = level, nexts = replicate (Suc level) None,
      marked = False, fullyLinked = False\<rparr>"

section \<open>Hazard-pointer domain\<close>

text \<open>
  \<^verbatim>\<open>struct Retired\<close> pairs a pointer with its deleter. The deleter is kept abstract
  (\<open>'d\<close>); what calling it does to the world \<open>'w\<close> is given by a function \<open>call\<close>
  that \<open>scan\<close> and \<open>retire\<close> take.
\<close>

record 'd Retired =
  rptr :: ptr
  deleter :: 'd

record 'd HazardDomain =
  hp :: "ptr list"
  retired :: "'d Retired list"

definition HazardDomain_instance :: "'d HazardDomain" where
  "HazardDomain_instance = \<lparr>hp = replicate MAX_HAZARD_POINTERS None, retired = []\<rparr>"

text \<open>The first loop of \<^verbatim>\<open>scan\<close>: the non-null slots, in slot order.\<close>

function scan_hazards :: "ptr list \<Rightarrow> nat \<Rightarrow> ptr list" where
  "scan_hazards hps i =
     (if i < MAX_HAZARD_POINTERS then
        (case hps ! i of
           None \<Rightarrow> scan_hazards hps (Suc i)
         | Some p \<Rightarrow> Some p # scan_hazards hps (Suc i))
      else [])"
  by pat_completeness auto
termination
  by (relation "measure (\<lambda>(hps, i). MAX_HAZARD_POINTERS - i)") auto

declare scan_hazards.simps [simp del]

text \<open>\<^verbatim>\<open>std::find(hazards.begin(), hazards.end(), p) != hazards.end()\<close>.\<close>

fun std_find :: "ptr list \<Rightarrow> ptr \<Rightarrow> bool" where
  "std_find [] p = False"
| "std_find (h # hs) p = (if h = p then True else std_find hs p)"

text \<open>The second loop of \<^verbatim>\<open>scan\<close>, over the retired list from its front.\<close>

fun scan_retired ::
  "('d \<Rightarrow> ptr \<Rightarrow> 'w \<Rightarrow> 'w) \<Rightarrow> ptr list \<Rightarrow> 'd Retired list \<Rightarrow> 'w \<Rightarrow> 'd Retired list \<times> 'w" where
  "scan_retired call hazards [] w = ([], w)"
| "scan_retired call hazards (r # rs) w =
     (if \<not> std_find hazards (rptr r) then
        scan_retired call hazards rs (call (deleter r) (rptr r) w)
      else
        (case scan_retired call hazards rs w of (rs', w') \<Rightarrow> (r # rs', w')))"

definition scan ::
  "('d \<Rightarrow> ptr \<Rightarrow> 'w \<Rightarrow> 'w) \<Rightarrow> 'd HazardDomain \<Rightarrow> 'w \<Rightarrow> 'd HazardDomain \<times> 'w" where
  "scan call d w =
     (let hazards = scan_hazards (hp d) 0 in
      case scan_retired call hazards (retired d) w of
        (rs', w') \<Rightarrow> (d\<lparr>retired := rs'\<rparr>, w'))"

definition retire ::
  "('d \<Rightarrow> ptr \<Rightarrow> 'w \<Rightarrow> 'w) \<Rightarrow> 'd HazardDomain \<Rightarrow> ptr \<Rightarrow> 'd \<Rightarrow> 'w \<Rightarrow> 'd HazardDomain \<times> 'w" where
  "retire call d p del w =
     (let d1 = d\<lparr>retired := retired d @ [\<lparr>rptr = p, deleter = del\<rparr>]\<rparr> in
      if length (retired d1) > MAX_HAZARD_POINTERS then scan call d1 w else (d1, w))"

section \<open>The queue\<close>

text \<open>
  The only deleter the queue retires nodes with is the lambda
  \<^verbatim>\<open>[](void* p) { delete static_cast<Node*>(p); }\<close>. \<open>count_p\<close> is the
  \<^verbatim>\<open>std::atomic<size_t>\<close>, 64 bits wide.
\<close>

datatype node_deleter = DeleteNode

record pq_state =
  heap :: "node option list"
  mem_left :: nat
  head_p :: addr
  tail_p :: addr
  count_p :: "64 word"
  domain_p :: "node_deleter HazardDomain"

text \<open>
  \<^verbatim>\<open>new Node(...)\<close> is \<open>None\<close> when it throws \<^verbatim>\<open>std::bad_alloc\<close>.
  \<^verbatim>\<open>delete\<close> of a null pointer does nothing; deleting a cell a second time is
  not tracked and leaves it deleted.
\<close>

definition new_Node :: "pq_state \<Rightarrow> node \<Rightarrow> (addr \<times> pq_state) option" where
  "new_Node s n =
     (if mem_left s = 0 then None
      else Some (length (heap s), s\<lparr>heap := heap s @ [Some n], mem_left := mem_left s - 1\<rparr>))"

definition delete_Node :: "ptr \<Rightarrow> pq_state \<Rightarrow> pq_state" where
  "delete_Node p s =
     (case p of
        None \<Rightarrow> s
      | Some a \<Rightarrow> s\<lparr>heap := (heap s)[a := None], mem_left := Suc (mem_left s)\<rparr>)"

fun call_deleter :: "node_deleter \<Rightarrow> ptr \<Rightarrow> pq_state \<Rightarrow> pq_state" where
  "call_deleter DeleteNode p s = delete_Node p s"

subsection \<open>Loads, stores and compare-and-swap\<close>

definition load_node :: "pq_state \<Rightarrow> ptr \<Rightarrow> fault + node" where
  "load_node s p =
     (case p of
        None \<Rightarrow> Inl NullDeref
      | Some a \<Rightarrow>
          if a < length (heap s) then
            (case heap s ! a of None \<Rightarrow> Inl UseAfterFree | Some n \<Rightarrow> Inr n)
          else Inl UseAfterFree)"

definition slot :: "node \<Rightarrow> nat \<Rightarrow> fault + ptr" where
  "slot n l =
     (if l < length (nexts n) then Inr (nexts n ! l)
      else if l \<le> MaxLevel then Inl UninitRead
      else Inl OutOfBounds)"

definition load_next :: "pq_state \<Rightarrow> ptr \<Rightarrow> nat \<Rightarrow> fault + ptr" where
  "load_next s p l =
     (case load_node s p of Inl e \<Rightarrow> Inl e | Inr n \<Rightarrow> slot n l)"

definition put_node :: "pq_state \<Rightarrow> addr \<Rightarrow> node \<Rightarrow> pq_state" where
  "put_node s a n = s\<lparr>heap := (heap s)[a := Some n]\<rparr>"

text \<open>
  \<^verbatim>\<open>p->next[l].compare_exchange_strong(expected, desired)\<close>: the result is the success
  flag, the value \<open>expected\<close> holds afterwards (on failure it is overwritten with what
  the slot holds) and the new state.
\<close>

definition cas_next ::
  "pq_state \<Rightarrow> ptr \<Rightarrow> nat \<Rightarrow> ptr \<Rightarrow> ptr \<Rightarrow> fault + (bool \<times> ptr \<times> pq_state)" where
  "cas_next s p l expected desired =
     (case p of
        None \<Rightarrow> Inl NullDeref
      | Some a \<Rightarrow>
          (case load_node s (Some a) of
             Inl e \<Rightarrow> Inl e
           | Inr n \<Rightarrow>
               (case slot n l of
                  Inl e \<Rightarrow> Inl e
                | Inr cur \<Rightarrow>
                    if cur = expected then
                      Inr (True, expected, put_node s a (n\<lparr>nexts := (nexts n)[l := desired]\<rparr>))
                    else Inr (False, cur, s))))"

text \<open>Reading a local array \<^verbatim>\<open>Node* preds[MaxLevel + 1]\<close>.\<close>

definition at_index :: "ptr list \<Rightarrow> nat \<Rightarrow> fault + ptr" where
  "at_index xs i = (if i < length xs then Inr (xs ! i) else Inl OutOfBounds)"

subsection \<open>\<^verbatim>\<open>randomLevel\<close>\<close>

text \<open>
  The thread-local generator is the sequence \<open>rng\<close> of the samples \<^verbatim>\<open>dist_(rng_)\<close>
  will return, with the number \<open>i\<close> of samples drawn so far. The result is the level
  and the new number of samples drawn: \<^verbatim>\<open>&&\<close> draws the sample before it looks at
  \<^verbatim>\<open>lvl\<close>.
\<close>

function randomLevel_loop :: "(nat \<Rightarrow> real) \<Rightarrow> nat \<Rightarrow> nat \<Rightarrow> nat \<times> nat" where
  "randomLevel_loop rng i lvl =
     (if rng i < Probability \<and> lvl < MaxLevel then randomLevel_loop rng (Suc i) (Suc lvl)
      else (lvl, Suc i))"
  by pat_completeness auto
termination
  by (relation "measure (\<lambda>(rng, i, lvl). MaxLevel - lvl)") auto

declare randomLevel_loop.simps [simp del]

definition randomLevel :: "(nat \<Rightarrow> real) \<Rightarrow> nat \<Rightarrow> nat \<times> nat" where
  "randomLevel rng i = randomLevel_loop rng i 0"

subsection \<open>\<^verbatim>\<open>findNode\<close>\<close>

text \<open>
  The innermost loop, \<^verbatim>\<open>while (curr->marked.load())\<close>. A failed compare-and-swap
  reloads \<open>curr\<close> and continues with \<open>succ\<close> as it was.
\<close>

partial_function (option) skip_marked ::
  "pq_state \<Rightarrow> ptr \<Rightarrow> nat \<Rightarrow> ptr \<Rightarrow> ptr \<Rightarrow> (fault + (pq_state \<times> ptr \<times> ptr)) option" where
  "skip_marked s predp level currp succp =
     (case load_node s currp of
        Inl e \<Rightarrow> Some (Inl e)
      | Inr c \<Rightarrow>
          if marked c then
            (case cas_next s predp level currp succp of
               Inl e \<Rightarrow> Some (Inl e)
             | Inr (ok, currp1, s1) \<Rightarrow>
                 if \<not> ok then
                   (case load_next s1 predp level of
                      Inl e \<Rightarrow> Some (Inl e)
                    | Inr currp2 \<Rightarrow> skip_marked s1 predp level currp2 succp)
                 else
                   (case load_next s1 succp level of
                      Inl e \<Rightarrow> Some (Inl e)
                    | Inr succp2 \<Rightarrow> skip_marked s1 predp level succp succp2))
          else Some (Inr (s, currp, succp)))"

declare skip_marked.simps [code]

text \<open>
  The loop \<^verbatim>\<open>while (true)\<close> of one level. It moves on while
  \<^verbatim>\<open>curr == tail_ || curr->value < key\<close>, as the source has it.
\<close>

partial_function (option) walk_level ::
  "pq_state \<Rightarrow> int \<Rightarrow> nat \<Rightarrow> ptr \<Rightarrow> ptr \<Rightarrow> (fault + (pq_state \<times> ptr \<times> ptr)) option" where
  "walk_level s key level predp currp =
     (case load_next s currp level of
        Inl e \<Rightarrow> Some (Inl e)
      | Inr succp \<Rightarrow>
          (case skip_marked s predp level currp succp of
             None \<Rightarrow> None
           | Some (Inl e) \<Rightarrow> Some (Inl e)
           | Some (Inr (s1, currp1, succp1)) \<Rightarrow>
               (case load_node s1 currp1 of
                  Inl e \<Rightarrow> Some (Inl e)
                | Inr c \<Rightarrow>
                    if currp1 = Some (tail_p s1) \<or> val c < key then
                      walk_level s1 key level currp1 succp1
                    else Some (Inr (s1, predp, currp1)))))"

declare walk_level.simps [code]

text \<open>
  The body of the loop \<^verbatim>\<open>for (int level = MaxLevel; level >= 0; --level)\<close> at one
  level: the walk from \<open>predp\<close>, then the two stores into \<^verbatim>\<open>preds\<close> and \<^verbatim>\<open>succs\<close>. The
  result carries the \<open>pred\<close> the next level starts from.
\<close>

definition find_level ::
  "nat \<Rightarrow> pq_state \<Rightarrow> int \<Rightarrow> ptr \<Rightarrow> ptr list \<Rightarrow> ptr list \<Rightarrow>
     (fault + (pq_state \<times> ptr \<times> ptr list \<times> ptr list)) option" where
  "find_level level s key predp preds succs =
     (case load_next s predp level of
        Inl e \<Rightarrow> Some (Inl e)
      | Inr currp \<Rightarrow>
          (case walk_level s key level predp currp of
             None \<Rightarrow> None
           | Some (Inl e) \<Rightarrow> Some (Inl e)
           | Some (Inr (s1, predp1, currp1)) \<Rightarrow>
               if level < length preds \<and> level < length succs then
                 Some (Inr (s1, predp1, preds[level := predp1], succs[level := currp1]))
               else Some (Inl OutOfBounds)))"

text \<open>The loop itself, from \<open>level\<close> down to 0.\<close>

fun find_levels ::
  "nat \<Rightarrow> pq_state \<Rightarrow> int \<Rightarrow> ptr \<Rightarrow> ptr list \<Rightarrow> ptr list \<Rightarrow>
     (fault + (pq_state \<times> ptr list \<times> ptr list)) option" where
  "find_levels 0 s key predp preds succs =
     (case find_level 0 s key predp preds succs of
        None \<Rightarrow> None
      | Some (Inl e) \<Rightarrow> Some (Inl e)
      | Some (Inr (s1, predp1, preds1, succs1)) \<Rightarrow> Some (Inr (s1, preds1, succs1)))"
| "find_levels (Suc l) s key predp preds succs =
     (case find_level (Suc l) s key predp preds succs of
        None \<Rightarrow> None
      | Some (Inl e) \<Rightarrow> Some (Inl e)
      | Some (Inr (s1, predp1, preds1, succs1)) \<Rightarrow> find_levels l s1 key predp1 preds1 succs1)"

definition findNode ::
  "pq_state \<Rightarrow> int \<Rightarrow> ptr list \<Rightarrow> ptr list \<Rightarrow>
     (fault + (bool \<times> ptr list \<times> ptr list \<times> pq_state)) option" where
  "findNode s key preds succs =
     (case find_levels MaxLevel s key (Some (head_p s)) preds succs of
        None \<Rightarrow> None
      | Some (Inl e) \<Rightarrow> Some (Inl e)
      | Some (Inr (s1, preds1, succs1)) \<Rightarrow>
          (case at_index succs1 0 of
             Inl e \<Rightarrow> Some (Inl e)
           | Inr s0 \<Rightarrow>
               if s0 \<noteq> Some (tail_p s1) then
                 (case load_node s1 s0 of
                    Inl e \<Rightarrow> Some (Inl e)
                  | Inr n \<Rightarrow> Some (Inr (val n = key, preds1, succs1, s1)))
               else Some (Inr (False, preds1, succs1, s1))))"

subsection \<open>Construction, \<^verbatim>\<open>push\<close>, \<^verbatim>\<open>pop\<close>, \<^verbatim>\<open>empty\<close>, \<^verbatim>\<open>size\<close>\<close>

text \<open>
  The constructor, given the domain and the memory left once both sentinels are
  allocated: head at address 0, tail at address 1, every level of head pointing to tail.
\<close>

definition construct :: "node_deleter HazardDomain \<Rightarrow> nat \<Rightarrow> pq_state" where
  "construct d mem =
     \<lparr>heap = [Some ((Node_sentinel MaxLevel)\<lparr>nexts := replicate (Suc MaxLevel) (Some 1)\<rparr>),
              Some (Node_sentinel MaxLevel)],
      mem_left = mem, head_p = 0, tail_p = 1, count_p = 0, domain_p = d\<rparr>"

text \<open>\<^verbatim>\<open>for (int lvl = 0; lvl <= topLevel; ++lvl) newNode->next[lvl].store(succs[lvl])\<close>,
  over the levels still to do.\<close>

fun store_succs :: "nat list \<Rightarrow> node \<Rightarrow> ptr list \<Rightarrow> fault + node" where
  "store_succs [] n succs = Inr n"
| "store_succs (lvl # lvls) n succs =
     (case at_index succs lvl of
        Inl e \<Rightarrow> Inl e
      | Inr p \<Rightarrow>
          if lvl < length (nexts n) then store_succs lvls (n\<lparr>nexts := (nexts n)[lvl := p]\<rparr>) succs
          else Inl OutOfBounds)"

text \<open>
  The loop \<^verbatim>\<open>for (int lvl = 1; lvl <= topLevel; ++lvl)\<close> with its inner
  \<^verbatim>\<open>while (!compare_exchange_strong(...)) findNode(...)\<close>: a failed compare-and-swap
  writes the slot's content into \<^verbatim>\<open>succs[lvl]\<close>, then \<^verbatim>\<open>findNode\<close> refreshes both
  arrays and the same level is tried again.
\<close>

partial_function (option) link_upper ::
  "pq_state \<Rightarrow> int \<Rightarrow> ptr \<Rightarrow> nat \<Rightarrow> nat \<Rightarrow> ptr list \<Rightarrow> ptr list \<Rightarrow> (fault + pq_state) option" where
  "link_upper s item newNode lvl topLvl preds succs =
     (if lvl \<le> topLvl then
        (case at_index preds lvl of
           Inl e \<Rightarrow> Some (Inl e)
         | Inr predp \<Rightarrow>
             (case at_index succs lvl of
                Inl e \<Rightarrow> Some (Inl e)
              | Inr succp \<Rightarrow>
                  (case cas_next s predp lvl succp newNode of
                     Inl e \<Rightarrow> Some (Inl e)
                   | Inr (ok, succp1, s1) \<Rightarrow>
                       if ok then link_upper s1 item newNode (Suc lvl) topLvl preds succs
                       else
                         (case findNode s1 item preds (succs[lvl := succp1]) of
                            None \<Rightarrow> None
                          | Some (Inl e) \<Rightarrow> Some (Inl e)
                          | Some (Inr (found, preds1, succs1, s2)) \<Rightarrow>
                              link_upper s2 item newNode lvl topLvl preds1 succs1))))
      else Some (Inr s))"

declare link_upper.simps [code]

definition set_fullyLinked :: "pq_state \<Rightarrow> ptr \<Rightarrow> fault + pq_state" where
  "set_fullyLinked s p =
     (case p of
        None \<Rightarrow> Inl NullDeref
      | Some a \<Rightarrow>
          (case load_node s (Some a) of
             Inl e \<Rightarrow> Inl e
           | Inr n \<Rightarrow> Inr (put_node s a (n\<lparr>fullyLinked := True\<rparr>))))"

text \<open>
  The loop \<^verbatim>\<open>while (true)\<close> of \<^verbatim>\<open>push\<close>, for a level already chosen. The
  constructor of a node writes \<^verbatim>\<open>next[0..level]\<close>, so a level above \<open>MaxLevel\<close>
  would write past the array. \<^verbatim>\<open>push\<close> is \<^verbatim>\<open>noexcept\<close>: when \<^verbatim>\<open>new\<close> throws,
  the program is terminated.
\<close>

partial_function (option) push_loop ::
  "pq_state \<Rightarrow> int \<Rightarrow> nat \<Rightarrow> ptr list \<Rightarrow> ptr list \<Rightarrow> (fault + pq_state) option" where
  "push_loop s item topLvl preds succs =
     (case findNode s item preds succs of
        None \<Rightarrow> None
      | Some (Inl e) \<Rightarrow> Some (Inl e)
      | Some (Inr (found, preds1, succs1, s1)) \<Rightarrow>
          (case new_Node s1 (Node_value item topLvl) of
             None \<Rightarrow> Some (Inl Terminated)
           | Some (a, s2) \<Rightarrow>
               if topLvl > MaxLevel then Some (Inl OutOfBounds)
               else
                 (case store_succs [0..<Suc topLvl] (Node_value item topLvl) succs1 of
                    Inl e \<Rightarrow> Some (Inl e)
                  | Inr n \<Rightarrow>
                      (case at_index preds1 0 of
                         Inl e \<Rightarrow> Some (Inl e)
                       | Inr predp \<Rightarrow>
                           (case at_index succs1 0 of
                              Inl e \<Rightarrow> Some (Inl e)
                            | Inr succp \<Rightarrow>
                                (case cas_next (put_node s2 a n) predp 0 succp (Some a) of
                                   Inl e \<Rightarrow> Some (Inl e)
                                 | Inr (ok, succp1, s3) \<Rightarrow>
                                     if \<not> ok then
                                       push_loop (delete_Node (Some a) s3) item topLvl preds1 succs1
                                     else
                                       (case link_upper s3 item (Some a) 1 topLvl preds1 succs1 of
                                          None \<Rightarrow> None
                                        | Some (Inl e) \<Rightarrow> Some (Inl e)
                                        | Some (Inr s4) \<Rightarrow>
                                            (case set_fullyLinked s4 (Some a) of
                                               Inl e \<Rightarrow> Some (Inl e)
                                             | Inr s5 \<Rightarrow>
                                                 Some (Inr (s5\<lparr>count_p := count_p s5 + 1\<rparr>))))))))))"

declare push_loop.simps [code]

text \<open>The local arrays \<^verbatim>\<open>preds\<close> and \<^verbatim>\<open>succs\<close> before \<^verbatim>\<open>findNode\<close> has filled them.\<close>

definition local_array :: "ptr list" where
  "local_array = replicate (Suc MaxLevel) None"

definition push_at :: "nat \<Rightarrow> int \<Rightarrow> pq_state \<Rightarrow> (fault + pq_state) option" where
  "push_at topLvl item s = push_loop s item topLvl local_array local_array"

text \<open>\<^verbatim>\<open>push\<close>: the level comes from \<^verbatim>\<open>randomLevel\<close>; the result carries the number
  of samples drawn.\<close>

definition push ::
  "(nat \<Rightarrow> real) \<Rightarrow> nat \<Rightarrow> int \<Rightarrow> pq_state \<Rightarrow> (fault + (nat \<times> pq_state)) option" where
  "push rng i item s =
     (case randomLevel rng i of
        (topLvl, i') \<Rightarrow>
          (case push_at topLvl item s of
             None \<Rightarrow> None
           | Some (Inl e) \<Rightarrow> Some (Inl e)
           | Some (Inr s') \<Rightarrow> Some (Inr (i', s'))))"

text \<open>
  The unlinking loop of \<^verbatim>\<open>pop\<close>,
  \<^verbatim>\<open>for (int lvl = node->topLevel; lvl >= 0; --lvl)\<close>, from \<open>lvl\<close> downwards. The
  variable \<^verbatim>\<open>node\<close> is the \<open>expected\<close> argument of the compare-and-swap, passed by
  reference: a failed compare-and-swap overwrites it, and the loop goes on, and
  \<^verbatim>\<open>pop\<close> retires, with what it then holds.
\<close>

definition pop_unlink_level ::
  "nat \<Rightarrow> pq_state \<Rightarrow> ptr \<Rightarrow> ptr list \<Rightarrow> fault + (ptr \<times> pq_state)" where
  "pop_unlink_level lvl s nodep preds =
     (case at_index preds lvl of
        Inl e \<Rightarrow> Inl e
      | Inr predp \<Rightarrow>
          (case load_next s nodep lvl of
             Inl e \<Rightarrow> Inl e
           | Inr nxt \<Rightarrow>
               (case cas_next s predp lvl nodep nxt of
                  Inl e \<Rightarrow> Inl e
                | Inr (ok, nodep1, s1) \<Rightarrow> Inr (nodep1, s1))))"

fun pop_unlink :: "nat \<Rightarrow> pq_state \<Rightarrow> ptr \<Rightarrow> ptr list \<Rightarrow> fault + (ptr \<times> pq_state)" where
  "pop_unlink 0 s nodep preds = pop_unlink_level 0 s nodep preds"
| "pop_unlink (Suc l) s nodep preds =
     (case pop_unlink_level (Suc l) s nodep preds of
        Inl e \<Rightarrow> Inl e
      | Inr (nodep1, s1) \<Rightarrow> pop_unlink l s1 nodep1 preds)"

definition retire_node :: "pq_state \<Rightarrow> ptr \<Rightarrow> pq_state" where
  "retire_node s p =
     (case retire call_deleter (domain_p s) p DeleteNode s of
        (d, s') \<Rightarrow> s'\<lparr>domain_p := d\<rparr>)"

text \<open>
  \<^verbatim>\<open>pop\<close>: the result is \<open>None\<close> for \<^verbatim>\<open>false\<close> and \<open>Some out\<close> for \<^verbatim>\<open>true\<close>.
  Both a node that is not fully linked and a node already marked send the loop round
  again.
\<close>

partial_function (option) pop :: "pq_state \<Rightarrow> (fault + (int option \<times> pq_state)) option" where
  "pop s =
     (case load_next s (Some (head_p s)) 0 of
        Inl e \<Rightarrow> Some (Inl e)
      | Inr nodep \<Rightarrow>
          if nodep = Some (tail_p s) then Some (Inr (None, s))
          else
            (case nodep of
               None \<Rightarrow> Some (Inl NullDeref)
             | Some a \<Rightarrow>
                 (case load_node s (Some a) of
                    Inl e \<Rightarrow> Some (Inl e)
                  | Inr n \<Rightarrow>
                      if \<not> fullyLinked n then pop s
                      else if marked n then pop s
                      else
                        (case findNode (put_node s a (n\<lparr>marked := True\<rparr>)) (val n)
                                local_array local_array of
                           None \<Rightarrow> None
                         | Some (Inl e) \<Rightarrow> Some (Inl e)
                         | Some (Inr (found, preds, succs, s1)) \<Rightarrow>
                             (case pop_unlink (topLevel n) s1 (Some a) preds of
                                Inl e \<Rightarrow> Some (Inl e)
                              | Inr (nodep1, s2) \<Rightarrow>
                                  (let s3 = retire_node s2 nodep1
                                   in Some (Inr (Some (val n),
                                                 s3\<lparr>count_p := count_p s3 - 1\<rparr>))))))))"

declare pop.simps [code]

definition empty_pq :: "pq_state \<Rightarrow> bool" where
  "empty_pq s = (count_p s = 0)"

definition size_pq :: "pq_state \<Rightarrow> 64 word" where
  "size_pq s = count_p s"

section \<open>Observing a state\<close>

text \<open>
  Walking \<^verbatim>\<open>next[l]\<close> from a pointer until the tail sentinel, collecting the nodes
  passed. A walk that meets a null or deleted node, or that has not reached the tail
  after as many steps as the heap has cells (it is then on a cycle), gives \<open>None\<close>.
\<close>

fun chain :: "nat \<Rightarrow> pq_state \<Rightarrow> nat \<Rightarrow> ptr \<Rightarrow> (addr \<times> node) list option" where
  "chain 0 s l p = None"
| "chain (Suc fuel) s l p =
     (if p = Some (tail_p s) then Some []
      else
        (case p of
           None \<Rightarrow> None
         | Some a \<Rightarrow>
             (case load_node s (Some a) of
                Inl e \<Rightarrow> None
              | Inr n \<Rightarrow>
                  (case slot n l of
                     Inl e \<Rightarrow> None
                   | Inr q \<Rightarrow>
                       (case chain fuel s l q of
                          None \<Rightarrow> None
                        | Some ns \<Rightarrow> Some ((a, n) # ns))))))"

definition level_nodes :: "pq_state \<Rightarrow> nat \<Rightarrow> (addr \<times> node) list option" where
  "level_nodes s l =
     (case load_next s (Some (head_p s)) l of
        Inl e \<Rightarrow> None
      | Inr p \<Rightarrow> chain (Suc (length (heap s))) s l p)"

text \<open>Invariant I1: the values met on the bottom level are non-decreasing.\<close>

definition bottom_sorted :: "pq_state \<Rightarrow> bool" where
  "bottom_sorted s =
     (case level_nodes s 0 of None \<Rightarrow> False | Some ns \<Rightarrow> sorted (map (val \<circ> snd) ns))"

text \<open>An entry is live until it is marked.\<close>

definition no_live_entries :: "pq_state \<Rightarrow> bool" where
  "no_live_entries s =
     (case level_nodes s 0 of None \<Rightarrow> False | Some ns \<Rightarrow> list_all (marked \<circ> snd) ns)"

section \<open>Runs and example states\<close>

datatype op = Push int | Pop

text \<open>A single thread issuing operations one after the other; the results of the pops
  are collected.\<close>

fun run ::
  "(nat \<Rightarrow> real) \<Rightarrow> nat \<Rightarrow> pq_state \<Rightarrow> op list \<Rightarrow> (fault + (int option list \<times> pq_state)) option" where
  "run rng i s [] = Some (Inr ([], s))"
| "run rng i s (Push v # ops) =
     (case push rng i v s of
        None \<Rightarrow> None
      | Some (Inl e) \<Rightarrow> Some (Inl e)
      | Some (Inr (i', s')) \<Rightarrow> run rng i' s' ops)"
| "run rng i s (Pop # ops) =
     (case pop s of
        None \<Rightarrow> None
      | Some (Inl e) \<Rightarrow> Some (Inl e)
      | Some (Inr (r, s')) \<Rightarrow>
          (case run rng i s' ops of
             None \<Rightarrow> None
           | Some (Inl e) \<Rightarrow> Some (Inl e)
           | Some (Inr (rs, s'')) \<Rightarrow> Some (Inr (r # rs, s''))))"

text \<open>
  States written out by hand, for the places where a property is looked at on a queue
  that already holds entries. \<open>tower v nx\<close> is a fully linked node of full height whose
  every level points to \<open>nx\<close>; \<open>towers mem d vs\<close> is the queue holding one such node
  per value of \<open>vs\<close>, in this order on every level, at the addresses from 2 on.
\<close>

definition empty_domain :: "node_deleter HazardDomain" where
  "empty_domain = \<lparr>hp = replicate MAX_HAZARD_POINTERS None, retired = []\<rparr>"

definition tower :: "int \<Rightarrow> ptr \<Rightarrow> node" where
  "tower v nx =
     \<lparr>val = v, topLevel = MaxLevel, nexts = replicate (Suc MaxLevel) nx,
      marked = False, fullyLinked = True\<rparr>"

fun tower_cells :: "addr \<Rightarrow> int list \<Rightarrow> node option list" where
  "tower_cells a [] = []"
| "tower_cells a [v] = [Some (tower v (Some 1))]"
| "tower_cells a (v # w # vs) = Some (tower v (Some (Suc a))) # tower_cells (Suc a) (w # vs)"

definition towers :: "nat \<Rightarrow> node_deleter HazardDomain \<Rightarrow> int list \<Rightarrow> pq_state" where
  "towers mem d vs =
     \<lparr>heap = Some ((Node_sentinel MaxLevel)
                    \<lparr>nexts := replicate (Suc MaxLevel) (Some (if vs = [] then 1 else 2))\<rparr>)
             # Some (Node_sentinel MaxLevel) # tower_cells 2 vs,
      mem_left = mem, head_p = 0, tail_p = 1, count_p = of_nat (length vs), domain_p = d\<rparr>"

text \<open>
  The state \<open>towers 4 empty_domain [100, 200]\<close> is in after one push of 50 at level 0
  and three pops.
\<close>

definition two_towers_drained :: pq_state where
  "two_towers_drained =
     \<lparr>heap = [Some ((Node_sentinel MaxLevel)
                     \<lparr>nexts := replicate MaxLevel (Some 1) @ [Some 3]\<rparr>),
              Some (Node_sentinel MaxLevel),
              Some ((tower 100 (Some 3))\<lparr>marked := True\<rparr>),
              Some (tower 200 (Some 1)),
              Some \<lparr>val = 50, topLevel = 0, nexts = [Some 2], marked = True,
                    fullyLinked = True\<rparr>],
      mem_left = 3, head_p = 0, tail_p = 1, count_p = 1,
      domain_p = empty_domain
        \<lparr>retired := [\<lparr>rptr = Some 2, deleter = DeleteNode\<rparr>,
                     \<lparr>rptr = Some 3, deleter = DeleteNode\<rparr>]\<rparr>\<rparr>"

text \<open>
  A domain of its own, whose deleters only log the pointer they are called with: slot 0
  protects address 5, and 128 records are retired, for the addresses 5, 6 and 126 times 7.
\<close>

definition log_call :: "unit \<Rightarrow> ptr \<Rightarrow> ptr list \<Rightarrow> ptr list" where
  "log_call u p w = w @ [p]"

definition busy_domain :: "unit HazardDomain" where
  "busy_domain =
     \<lparr>hp = Some 5 # replicate 127 None,
      retired = \<lparr>rptr = Some 5, deleter = ()\<rparr> # \<lparr>rptr = Some 6, deleter = ()\<rparr>
                # replicate 126 \<lparr>rptr = Some 7, deleter = ()\<rparr>\<rparr>"

text \<open>A queue whose only entry has been marked by a consumer and not yet unlinked.\<close>

definition marked_only :: pq_state where
  "marked_only =
     \<lparr>heap = [Some ((Node_sentinel MaxLevel)
                     \<lparr>nexts := Some 2 # replicate MaxLevel (Some 1)\<rparr>),
              Some (Node_sentinel MaxLevel),
              Some \<lparr>val = 7, topLevel = 0, nexts = [Some 1], marked = True,
                    fullyLinked = True\<rparr>],
      mem_left = 8, head_p = 0, tail_p = 1, count_p = 1, domain_p = empty_domain\<rparr>"

text \<open>
  The states a single thread can bring a queue into: the freshly constructed one, and
  every state an operation returns from a reachable one.
\<close>

inductive reachable :: "pq_state \<Rightarrow> bool" where
  fresh: "reachable (construct d mem)"
| after_push: "reachable s \<Longrightarrow> push rng i item s = Some (Inr (i', s')) \<Longrightarrow> reachable s'"
| after_pop: "reachable s \<Longrightarrow> pop s = Some (Inr (r, s')) \<Longrightarrow> reachable s'"
| after_find: "reachable s \<Longrightarrow> findNode s key preds succs = Some (Inr (found, ps, ss, s')) \<Longrightarrow> reachable s'"

text \<open>What every step of a traversal leaves alone: everything but the cells' contents.\<close>

definition frame :: "pq_state \<Rightarrow> pq_state \<Rightarrow> bool" where
  "frame s s' \<longleftrightarrow>
     count_p s' = count_p s \<and> head_p s' = head_p s \<and> tail_p s' = tail_p s \<and>
     mem_left s' = mem_left s \<and> domain_p s' = domain_p s \<and>
     length (heap s') = length (heap s)"

text \<open>The first node of the bottom level is one \<^verbatim>\<open>pop\<close> retries on: not yet fully
  linked, or already marked.\<close>

definition pop_retries :: "pq_state \<Rightarrow> bool" where
  "pop_retries s =
     (case load_next s (Some (head_p s)) 0 of
        Inl e \<Rightarrow> False
      | Inr nodep \<Rightarrow>
          nodep \<noteq> Some (tail_p s) \<and>
          (case load_node s nodep of
             Inl e \<Rightarrow> False
           | Inr n \<Rightarrow> \<not> fullyLinked n \<or> marked n))"

definition pushes :: "op list \<Rightarrow> nat" where
  "pushes ops = length (filter (\<lambda>x. x \<noteq> Pop) ops)"

definition successes :: "int option list \<Rightarrow> nat" where
  "successes rs = length (filter (\<lambda>r. r \<noteq> None) rs)"

section \<open>Well-formed skip lists\<close>

text \<open>
  The addresses \<open>as\<close> are the nodes that the \<^verbatim>\<open>next[l]\<close> pointers lead through from
  \<open>p\<close> up to, and without, \<open>q\<close>; none of them is the tail sentinel. A level of the list
  is such a segment from the head sentinel to the tail sentinel.
\<close>

fun pseg :: "pq_state \<Rightarrow> nat \<Rightarrow> addr list \<Rightarrow> ptr \<Rightarrow> ptr \<Rightarrow> bool" where
  "pseg s l [] p q \<longleftrightarrow> p = q"
| "pseg s l (a # as) p q \<longleftrightarrow>
     p = Some a \<and> a \<noteq> tail_p s \<and>
     (case load_next s (Some a) l of Inl e \<Rightarrow> False | Inr r \<Rightarrow> pseg s l as r q)"

definition lseg :: "pq_state \<Rightarrow> nat \<Rightarrow> addr list \<Rightarrow> ptr \<Rightarrow> bool" where
  "lseg s l as p = pseg s l as p (Some (tail_p s))"

text \<open>
  A node that no \<^verbatim>\<open>pop\<close> has marked, and a tail sentinel as the constructor leaves it:
  every \<^verbatim>\<open>next\<close> pointer null, not marked.
\<close>

definition unmarked_at :: "pq_state \<Rightarrow> addr \<Rightarrow> bool" where
  "unmarked_at s a =
     (case load_node s (Some a) of Inl e \<Rightarrow> True | Inr n \<Rightarrow> \<not> marked n)"

definition tail_ok :: "pq_state \<Rightarrow> bool" where
  "tail_ok s =
     (case load_node s (Some (tail_p s)) of
        Inl e \<Rightarrow> False
      | Inr t \<Rightarrow> nexts t = replicate (Suc MaxLevel) None \<and> \<not> marked t)"

text \<open>
  What the comparison \<^verbatim>\<open>curr->value < key\<close> of the traversal says of a node. The head
  sentinel is below every key: the traversal starts there and never compares its value.
  \<open>found_at\<close> is what the traversal has to deliver at level \<open>l\<close>: two neighbours of the
  level, the first below the key and the second not.
\<close>

definition below :: "pq_state \<Rightarrow> int \<Rightarrow> addr \<Rightarrow> bool" where
  "below s key a \<longleftrightarrow>
     a = head_p s \<or> (case load_node s (Some a) of Inl e \<Rightarrow> False | Inr n \<Rightarrow> val n < key)"

definition not_below :: "pq_state \<Rightarrow> int \<Rightarrow> addr \<Rightarrow> bool" where
  "not_below s key a \<longleftrightarrow>
     (case load_node s (Some a) of Inl e \<Rightarrow> False | Inr n \<Rightarrow> \<not> val n < key)"

definition found_at :: "pq_state \<Rightarrow> int \<Rightarrow> addr list \<Rightarrow> nat \<Rightarrow> ptr \<Rightarrow> ptr \<Rightarrow> bool" where
  "found_at s key xs l p c \<longleftrightarrow>
     (\<exists>a x. p = Some a \<and> c = Some x \<and> a \<in> set xs \<and> x \<in> set xs \<and>
        load_next s (Some a) l = Inr (Some x) \<and> below s key a \<and> not_below s key x)"

text \<open>
  A skip list whose level \<open>l\<close> holds the nodes \<open>xs l\<close>: every level leads from the head
  sentinel to the tail sentinel through unmarked nodes, and every node of a level is a
  node of the level below.
\<close>

definition skiplist :: "pq_state \<Rightarrow> (nat \<Rightarrow> addr list) \<Rightarrow> bool" where
  "skiplist s xs \<longleftrightarrow>
     tail_ok s \<and>
     (\<forall>l \<le> MaxLevel. lseg s l (xs l) (Some (head_p s)) \<and> head_p s \<in> set (xs l) \<and>
        (\<forall>a \<in> set (xs l). unmarked_at s a)) \<and>
     (\<forall>l < MaxLevel. set (xs (Suc l)) \<subseteq> set (xs l))"

text \<open>
  The value stored at an address, and two states with the same sentinels, the same cells
  allocated and the same values in them, whatever the pointers are.
\<close>

definition value_at :: "pq_state \<Rightarrow> addr \<Rightarrow> int option" where
  "value_at s a = (case load_node s (Some a) of Inl e \<Rightarrow> None | Inr n \<Rightarrow> Some (val n))"

definition same_but :: "pq_state \<Rightarrow> pq_state \<Rightarrow> bool" where
  "same_but s s' \<longleftrightarrow>
     head_p s' = head_p s \<and> tail_p s' = tail_p s \<and> length (heap s') = length (heap s) \<and>
     (\<forall>a. value_at s' a = value_at s a)"

text \<open>
  The same read off a state: the addresses of level \<open>l\<close>, head sentinel first, and the
  test that the state is a skip list of unmarked nodes. Cells that are allocated but on
  no level, such as retired nodes awaiting reclamation, are not constrained.
\<close>

definition level_addrs :: "pq_state \<Rightarrow> nat \<Rightarrow> addr list" where
  "level_addrs s l =
     (case level_nodes s l of None \<Rightarrow> [] | Some ns \<Rightarrow> head_p s # map fst ns)"

definition well_formed :: "pq_state \<Rightarrow> bool" where
  "well_formed s \<longleftrightarrow>
     head_p s \<noteq> tail_p s \<and> tail_ok s \<and>
     list_all (\<lambda>l. level_nodes s l \<noteq> None \<and> list_all (unmarked_at s) (level_addrs s l))
       [0..<Suc MaxLevel] \<and>
     list_all (\<lambda>l. set (level_addrs s (Suc l)) \<subseteq> set (level_addrs s l)) [0..<MaxLevel]"

text \<open>
  The values of the bottom level, in the order of the \<^verbatim>\<open>next[0]\<close> pointers.
\<close>

definition bottom_values :: "pq_state \<Rightarrow> int list option" where
  "bottom_values s =
     (case level_nodes s 0 of None \<Rightarrow> None | Some ns \<Rightarrow> Some (map (val \<circ> snd) ns))"

text \<open>
  The queue of the one tower 100 after a node of value 50 and height 2 has been linked
  in front of it.
\<close>

definition tower_and_node :: pq_state where
  "tower_and_node =
     \<lparr>heap = [Some ((Node_sentinel MaxLevel)
                     \<lparr>nexts := replicate 3 (Some 3) @ replicate 14 (Some 2)\<rparr>),
              Some (Node_sentinel MaxLevel),
              Some (tower 100 (Some 1)),
              Some \<lparr>val = 50, topLevel = 2, nexts = replicate 3 (Some 2), marked = False,
                    fullyLinked = True\<rparr>],
      mem_left = 3, head_p = 0, tail_p = 1, count_p = 2, domain_p = empty_domain\<rparr>"

section \<open>The traversal steps past the tail sentinel\<close>

text \<open>
  \<^verbatim>\<open>findNode\<close> moves on while \<^verbatim>\<open>curr == tail_ || curr->value < key\<close>. So when the walk
  of a level arrives at the tail sentinel, it makes the tail the predecessor and goes on
  to the tail's successor, which is null, and the next load dereferences it.
\<close>

lemma walk_level_at_tail:
  assumes "load_node s (Some (tail_p s)) = Inr t" "\<not> marked t" "slot t l = Inr None"
  shows "walk_level s key l predp (Some (tail_p s)) = Some (Inl NullDeref)"
proof -
  have skip: "skip_marked s predp l (Some (tail_p s)) None = Some (Inr (s, Some (tail_p s), None))"
    using assms by (subst skip_marked.simps) simp
  have null: "walk_level s key l (Some (tail_p s)) None = Some (Inl NullDeref)"
    by (subst walk_level.simps) (simp add: load_next_def load_node_def)
  show ?thesis
    using assms skip null by (subst walk_level.simps) (simp add: load_next_def)
qed

lemma find_level_at_tail:
  assumes "load_next s predp l = Inr (Some (tail_p s))"
    and "load_node s (Some (tail_p s)) = Inr t" "\<not> marked t" "slot t l = Inr None"
  shows "find_level l s key predp preds succs = Some (Inl NullDeref)"
  using assms(1) walk_level_at_tail [OF assms(2-4)] by (simp add: find_level_def)

lemma find_levels_first_fault:
  "find_level l s key predp preds succs = Some (Inl e) \<Longrightarrow>
   find_levels l s key predp preds succs = Some (Inl e)"
  by (cases l) simp_all

lemma construct_sel [simp]:
  "head_p (construct d mem) = 0" "tail_p (construct d mem) = Suc 0"
  "count_p (construct d mem) = 0" "mem_left (construct d mem) = mem"
  "domain_p (construct d mem) = d"
  by (simp_all add: construct_def)

lemma load_node_construct:
  "load_node (construct d mem) (Some 0) =
     Inr ((Node_sentinel MaxLevel)\<lparr>nexts := replicate (Suc MaxLevel) (Some 1)\<rparr>)"
  "load_node (construct d mem) (Some (Suc 0)) = Inr (Node_sentinel MaxLevel)"
  by (simp_all add: load_node_def construct_def)

lemma findNode_construct: "findNode (construct d mem) key preds succs = Some (Inl NullDeref)"
proof -
  have "find_level MaxLevel (construct d mem) key (Some 0) preds succs = Some (Inl NullDeref)"
    by (rule find_level_at_tail [where t = "Node_sentinel MaxLevel"])
       (simp_all add: load_next_def load_node_construct slot_def Node_sentinel_def
          del: replicate.simps)
  then have "find_levels MaxLevel (construct d mem) key (Some 0) preds succs = Some (Inl NullDeref)"
    by (rule find_levels_first_fault)
  then show ?thesis by (simp add: findNode_def)
qed

lemma push_at_construct: "push_at k item (construct d mem) = Some (Inl NullDeref)"
  unfolding push_at_def by (subst push_loop.simps) (simp add: findNode_construct)

lemma push_construct: "push rng i item (construct d mem) = Some (Inl NullDeref)"
  by (simp add: push_def push_at_construct split: prod.splits)

lemma pop_construct: "pop (construct d mem) = Some (Inr (None, construct d mem))"
  by (subst pop.simps)
     (simp add: load_next_def load_node_construct slot_def del: replicate.simps)

lemma level_nodes_construct: "l \<le> MaxLevel \<Longrightarrow> level_nodes (construct d mem) l = Some []"
  by (simp add: level_nodes_def load_next_def load_node_construct slot_def del: replicate.simps)

lemma bottom_sorted_construct: "bottom_sorted (construct d mem)"
  by (simp add: bottom_sorted_def level_nodes_construct)

text \<open>
  So a run on a freshly constructed queue ends in its first push, the pops before it
  returning the empty indicator; and no state but the fresh one is reachable.
\<close>

lemma reachable_is_fresh: "reachable s \<Longrightarrow> \<exists>d mem. s = construct d mem"
proof (induction rule: reachable.induct)
  case (fresh d mem)
  then show ?case by blast
next
  case (after_push s rng i item i' s')
  then show ?case by (auto simp: push_construct)
next
  case (after_pop s r s')
  then obtain d mem where "s = construct d mem" by blast
  with after_pop.hyps(2) have "s' = construct d mem" by (simp add: pop_construct)
  then show ?case by blast
next
  case (after_find s key preds succs found ps ss s')
  then show ?case by (auto simp: findNode_construct)
qed

lemma run_construct:
  "run rng i (construct d mem) ops =
     (if \<exists>v. Push v \<in> set ops then Some (Inl NullDeref)
      else Some (Inr (replicate (length ops) None, construct d mem)))"
proof (induction ops)
  case Nil
  then show ?case by simp
next
  case (Cons x ops)
  show ?case
  proof (cases x)
    case (Push v)
    then show ?thesis by (auto simp: push_construct)
  next
    case Pop
    with Cons show ?thesis
      by (auto simp: pop_construct)
  qed
qed


section \<open>What the traversals leave alone\<close>

lemma frame_refl [simp]: "frame s s"
  by (simp add: frame_def)

lemma frame_trans: "frame s s1 \<Longrightarrow> frame s1 s2 \<Longrightarrow> frame s s2"
  by (simp add: frame_def)

lemma put_node_frame [simp]: "frame s (put_node s a n)"
  by (simp add: frame_def put_node_def)

lemma cas_next_frame: "cas_next s p l e d = Inr (ok, e', s') \<Longrightarrow> frame s s'"
  by (auto simp: cas_next_def split: option.splits sum.splits if_splits)

lemma skip_marked_frame_aux:
  assumes "skip_marked s predp level currp succp = Some y"
  shows "\<forall>s' c' n'. y = Inr (s', c', n') \<longrightarrow> frame s s'"
proof (rule skip_marked.raw_induct
    [where P = "\<lambda>s predp level currp succp y. \<forall>s' c' n'. y = Inr (s', c', n') \<longrightarrow> frame s s'",
      OF _ assms], goal_cases)
  case (1 f s predp level currp succp y)
  then show ?case
    by (auto split: sum.splits if_splits prod.splits
             dest!: cas_next_frame intro: frame_trans)
qed

lemma skip_marked_frame:
  "skip_marked s predp level currp succp = Some (Inr (s', c', n')) \<Longrightarrow> frame s s'"
  using skip_marked_frame_aux by blast

lemma walk_level_frame_aux:
  assumes "walk_level s key level predp currp = Some y"
  shows "\<forall>s' p' c'. y = Inr (s', p', c') \<longrightarrow> frame s s'"
proof (rule walk_level.raw_induct
    [where P = "\<lambda>s key level predp currp y. \<forall>s' p' c'. y = Inr (s', p', c') \<longrightarrow> frame s s'",
      OF _ assms], goal_cases)
  case (1 f s key level predp currp y)
  then show ?case
    by (auto split: sum.splits if_splits prod.splits option.splits
             dest!: skip_marked_frame intro: frame_trans)
qed

lemma walk_level_frame:
  "walk_level s key level predp currp = Some (Inr (s', p', c')) \<Longrightarrow> frame s s'"
  using walk_level_frame_aux by blast

lemma find_level_frame:
  "find_level level s key predp preds succs = Some (Inr (s', p', ps, ss)) \<Longrightarrow>
   frame s s' \<and> length ps = length preds \<and> length ss = length succs"
  by (auto simp: find_level_def split: sum.splits if_splits prod.splits option.splits
           dest!: walk_level_frame)

lemma find_levels_frame:
  "find_levels level s key predp preds succs = Some (Inr (s', ps, ss)) \<Longrightarrow>
   frame s s' \<and> length ps = length preds \<and> length ss = length succs"
proof (induction level arbitrary: s predp preds succs)
  case 0
  then show ?case
    by (auto split: sum.splits prod.splits option.splits dest!: find_level_frame)
next
  case (Suc l)
  from Suc.prems obtain s1 p1 ps1 ss1 where
    step: "find_level (Suc l) s key predp preds succs = Some (Inr (s1, p1, ps1, ss1))"
    and rest: "find_levels l s1 key p1 ps1 ss1 = Some (Inr (s', ps, ss))"
    by (auto split: sum.splits prod.splits option.splits)
  from find_level_frame [OF step] Suc.IH [OF rest] show ?case
    by (auto intro: frame_trans)
qed

lemma findNode_frame:
  "findNode s key preds succs = Some (Inr (found, ps, ss, s')) \<Longrightarrow>
   frame s s' \<and> length ps = length preds \<and> length ss = length succs"
  by (auto simp: findNode_def split: sum.splits if_splits prod.splits option.splits
           dest!: find_levels_frame)

lemma link_upper_frame_aux:
  assumes "link_upper s item newNode lvl topLvl preds succs = Some y"
  shows "\<forall>s'. y = Inr s' \<longrightarrow> frame s s'"
proof (rule link_upper.raw_induct
    [where P = "\<lambda>s item newNode lvl topLvl preds succs y. \<forall>s'. y = Inr s' \<longrightarrow> frame s s'",
      OF _ assms], goal_cases)
  case (1 f s item newNode lvl topLvl preds succs y)
  then show ?case
    by (auto split: sum.splits if_splits prod.splits option.splits
             dest!: cas_next_frame findNode_frame intro: frame_trans)
qed

lemma link_upper_frame:
  "link_upper s item newNode lvl topLvl preds succs = Some (Inr s') \<Longrightarrow> frame s s'"
  using link_upper_frame_aux by blast

lemma set_fullyLinked_frame: "set_fullyLinked s p = Inr s' \<Longrightarrow> frame s s'"
  by (auto simp: set_fullyLinked_def split: option.splits sum.splits)

lemma pop_unlink_level_frame: "pop_unlink_level l s nodep preds = Inr (n', s') \<Longrightarrow> frame s s'"
  by (auto simp: pop_unlink_level_def split: sum.splits prod.splits dest!: cas_next_frame)

lemma pop_unlink_frame: "pop_unlink l s nodep preds = Inr (n', s') \<Longrightarrow> frame s s'"
proof (induction l arbitrary: s nodep)
  case 0
  then show ?case by (auto dest!: pop_unlink_level_frame)
next
  case (Suc l)
  then show ?case
    by (auto split: sum.splits prod.splits dest!: pop_unlink_level_frame intro: frame_trans)
qed

section \<open>The counter\<close>

lemma push_loop_count_aux:
  assumes "push_loop s item topLvl preds succs = Some y"
  shows "\<forall>s'. y = Inr s' \<longrightarrow> count_p s' = count_p s + 1"
proof (rule push_loop.raw_induct
    [where P = "\<lambda>s item topLvl preds succs y. \<forall>s'. y = Inr s' \<longrightarrow> count_p s' = count_p s + 1",
      OF _ assms], goal_cases)
  case (1 f s item topLvl preds succs y)
  then show ?case
    by (auto simp: frame_def new_Node_def put_node_def delete_Node_def
             split: sum.splits if_splits prod.splits option.splits
             dest!: cas_next_frame findNode_frame link_upper_frame
             dest: set_fullyLinked_frame)
qed

lemma push_loop_count:
  "push_loop s item topLvl preds succs = Some (Inr s') \<Longrightarrow> count_p s' = count_p s + 1"
  using push_loop_count_aux by blast

lemma push_count:
  assumes "push rng i v s = Some (Inr (i', s'))"
  shows "count_p s' = count_p s + 1"
proof -
  obtain k j where k: "randomLevel rng i = (k, j)"
    by (cases "randomLevel rng i")
  with assms have "push_at k v s = Some (Inr s')"
    by (simp add: push_def split: option.splits sum.splits)
  then show ?thesis
    unfolding push_at_def by (rule push_loop_count)
qed

lemma scan_retired_count:
  "scan_retired call_deleter hz rs s = (rs', s') \<Longrightarrow> count_p s' = count_p s"
proof (induction rs arbitrary: s rs' s')
  case Nil
  then show ?case by simp
next
  case (Cons r rs)
  then show ?case
    by (cases "deleter r")
       (auto simp: delete_Node_def split: if_splits prod.splits option.splits)
qed

lemma retire_node_count: "count_p (retire_node s p) = count_p s"
  by (auto simp: retire_node_def retire_def scan_def Let_def
           split: prod.splits dest!: scan_retired_count)

lemma pop_count_aux:
  assumes "pop s = Some y"
  shows "\<forall>r s'. y = Inr (r, s') \<longrightarrow>
           (case r of None \<Rightarrow> s' = s | Some v \<Rightarrow> count_p s' = count_p s - 1)"
proof (rule pop.raw_induct
    [where P = "\<lambda>s y. \<forall>r s'. y = Inr (r, s') \<longrightarrow>
        (case r of None \<Rightarrow> s' = s | Some v \<Rightarrow> count_p s' = count_p s - 1)", OF _ assms],
    goal_cases)
  case (1 f s y)
  have IH: "f x = Some (Inr (r, s')) \<Longrightarrow>
            (case r of None \<Rightarrow> s' = x | Some v \<Rightarrow> count_p s' = count_p x - 1)" for x r s'
    using 1(1) by blast
  from 1(2) show ?case
    by (auto simp: frame_def put_node_def retire_node_count Let_def
             split: sum.splits if_splits prod.splits option.splits
             dest!: findNode_frame pop_unlink_frame dest: IH)
qed

lemma pop_count:
  "pop s = Some (Inr (r, s')) \<Longrightarrow>
   (case r of None \<Rightarrow> s' = s | Some v \<Rightarrow> count_p s' = count_p s - 1)"
  using pop_count_aux by blast

lemma run_count:
  "run rng i s ops = Some (Inr (rs, s')) \<Longrightarrow>
   count_p s' = count_p s + of_nat (pushes ops) - of_nat (successes rs)"
proof (induction ops arbitrary: i s rs)
  case Nil
  then show ?case by (simp add: pushes_def successes_def)
next
  case (Cons x ops)
  show ?case
  proof (cases x)
    case (Push v)
    with Cons.prems obtain i1 s1 where
      p: "push rng i v s = Some (Inr (i1, s1))" and r: "run rng i1 s1 ops = Some (Inr (rs, s'))"
      by (auto split: option.splits sum.splits prod.splits)
    from push_count [OF p] Cons.IH [OF r] Push show ?thesis
      by (simp add: pushes_def)
  next
    case Pop
    with Cons.prems obtain r s1 rs1 where
      p: "pop s = Some (Inr (r, s1))" and rn: "run rng i s1 ops = Some (Inr (rs1, s'))"
      and rs: "rs = r # rs1"
      by (auto split: option.splits sum.splits prod.splits)
    from pop_count [OF p] Cons.IH [OF rn] Pop rs show ?thesis
      by (cases r) (simp_all add: pushes_def successes_def)
  qed
qed

section \<open>\<^verbatim>\<open>pop\<close> at the head of the bottom level\<close>

lemma load_node_null [simp]: "load_node s None = Inl NullDeref"
  by (simp add: load_node_def)

lemma pop_retries_aux:
  assumes "pop s = Some y"
  shows "\<not> pop_retries s"
proof (rule pop.raw_induct [where P = "\<lambda>s y. \<not> pop_retries s", OF _ assms], goal_cases)
  case (1 f s y)
  show ?case
  proof
    assume "pop_retries s"
    with 1(2) have "f s = Some y"
      by (auto simp: pop_retries_def split: sum.splits option.splits if_splits)
    with 1(1) \<open>pop_retries s\<close> show False by blast
  qed
qed

lemma pop_retries_forever: "pop_retries s \<Longrightarrow> pop s = None"
  using pop_retries_aux by (cases "pop s") auto

section \<open>The two loops of \<^verbatim>\<open>scan\<close>\<close>

lemma scan_hazards_drop:
  "length hps = MAX_HAZARD_POINTERS \<Longrightarrow> i \<le> MAX_HAZARD_POINTERS \<Longrightarrow>
   scan_hazards hps i = filter (\<lambda>p. p \<noteq> None) (drop i hps)"
proof (induction hps i rule: scan_hazards.induct)
  case (1 hps i)
  show ?case
  proof (cases "i < MAX_HAZARD_POINTERS")
    case True
    with 1 have d: "drop i hps = hps ! i # drop (Suc i) hps"
      by (simp add: Cons_nth_drop_Suc)
    show ?thesis
    proof (cases "hps ! i")
      case None
      with True 1 d show ?thesis
        by (subst scan_hazards.simps) simp
    next
      case (Some a)
      with True 1 d show ?thesis
        by (subst scan_hazards.simps) simp
    qed
  next
    case False
    with 1 show ?thesis
      by (subst scan_hazards.simps) simp
  qed
qed

lemma std_find_iff: "std_find hs p \<longleftrightarrow> p \<in> set hs"
  by (induction hs) auto

lemma scan_retired_eq:
  "scan_retired call hz rs w =
     (filter (\<lambda>r. rptr r \<in> set hz) rs,
      fold (\<lambda>r. call (deleter r) (rptr r)) (filter (\<lambda>r. rptr r \<notin> set hz) rs) w)"
  by (induction rs arbitrary: w) (simp_all add: std_find_iff)

section \<open>Levels and indices\<close>

lemma randomLevel_loop_le:
  "lvl \<le> MaxLevel \<Longrightarrow> fst (randomLevel_loop rng i lvl) \<le> MaxLevel"
proof (induction rng i lvl rule: randomLevel_loop.induct)
  case (1 rng i lvl)
  then show ?case
    by (subst randomLevel_loop.simps) simp
qed

lemma randomLevel_le: "fst (randomLevel rng i) \<le> MaxLevel"
  by (simp add: randomLevel_def randomLevel_loop_le)

lemma slot_in_bounds: "l \<le> MaxLevel \<Longrightarrow> slot n l \<noteq> Inl OutOfBounds"
  by (simp add: slot_def)

lemma load_node_in_bounds: "load_node s p \<noteq> Inl OutOfBounds"
  by (simp add: load_node_def split: option.splits)

lemma load_next_in_bounds: "l \<le> MaxLevel \<Longrightarrow> load_next s p l \<noteq> Inl OutOfBounds"
  using load_node_in_bounds [of s p] slot_in_bounds [of l]
  by (auto simp: load_next_def split: sum.splits)

lemma cas_next_in_bounds: "l \<le> MaxLevel \<Longrightarrow> cas_next s p l e d \<noteq> Inl OutOfBounds"
  using load_node_in_bounds [of s p] slot_in_bounds [of l]
  by (auto simp: cas_next_def split: option.splits sum.splits)

lemma skip_marked_in_bounds_aux:
  assumes "skip_marked s predp level currp succp = Some y"
  shows "level \<le> MaxLevel \<longrightarrow> y \<noteq> Inl OutOfBounds"
proof (rule skip_marked.raw_induct
    [where P = "\<lambda>s predp level currp succp y. level \<le> MaxLevel \<longrightarrow> y \<noteq> Inl OutOfBounds",
      OF _ assms], goal_cases)
  case (1 f s predp level currp succp y)
  then show ?case
    by (auto simp: load_node_in_bounds load_next_in_bounds cas_next_in_bounds
             split: sum.splits if_splits prod.splits)
qed

lemma skip_marked_in_bounds:
  "level \<le> MaxLevel \<Longrightarrow> skip_marked s predp level currp succp \<noteq> Some (Inl OutOfBounds)"
  using skip_marked_in_bounds_aux by blast

lemma walk_level_in_bounds_aux:
  assumes "walk_level s key level predp currp = Some y"
  shows "level \<le> MaxLevel \<longrightarrow> y \<noteq> Inl OutOfBounds"
proof (rule walk_level.raw_induct
    [where P = "\<lambda>s key level predp currp y. level \<le> MaxLevel \<longrightarrow> y \<noteq> Inl OutOfBounds",
      OF _ assms], goal_cases)
  case (1 f s key level predp currp y)
  then show ?case
    by (auto simp: load_node_in_bounds load_next_in_bounds skip_marked_in_bounds
             split: sum.splits if_splits prod.splits option.splits)
qed

lemma walk_level_in_bounds:
  "level \<le> MaxLevel \<Longrightarrow> walk_level s key level predp currp \<noteq> Some (Inl OutOfBounds)"
  using walk_level_in_bounds_aux by blast

lemma find_level_in_bounds:
  "level \<le> MaxLevel \<Longrightarrow> length preds = Suc MaxLevel \<Longrightarrow> length succs = Suc MaxLevel \<Longrightarrow>
   find_level level s key predp preds succs \<noteq> Some (Inl OutOfBounds)"
  by (auto simp: find_level_def load_next_in_bounds walk_level_in_bounds
           split: sum.splits option.splits prod.splits)

lemma find_levels_in_bounds:
  "level \<le> MaxLevel \<Longrightarrow> length preds = Suc MaxLevel \<Longrightarrow> length succs = Suc MaxLevel \<Longrightarrow>
   find_levels level s key predp preds succs \<noteq> Some (Inl OutOfBounds)"
proof (induction level arbitrary: s predp preds succs)
  case 0
  then show ?case
    using find_level_in_bounds [of 0 preds succs s key predp]
    by (auto split: sum.splits option.splits prod.splits)
next
  case (Suc l)
  show ?case
  proof
    assume a: "find_levels (Suc l) s key predp preds succs = Some (Inl OutOfBounds)"
    from find_level_in_bounds [OF Suc.prems, of s key predp] a
    obtain s1 p1 ps1 ss1 where
      step: "find_level (Suc l) s key predp preds succs = Some (Inr (s1, p1, ps1, ss1))"
      and rest: "find_levels l s1 key p1 ps1 ss1 = Some (Inl OutOfBounds)"
      by (auto split: sum.splits option.splits prod.splits)
    from find_level_frame [OF step] Suc.prems have "length ps1 = Suc MaxLevel" "length ss1 = Suc MaxLevel"
      by simp_all
    with Suc.IH [of ps1 ss1 s1 p1] Suc.prems rest show False by simp
  qed
qed

lemma findNode_in_bounds:
  assumes "length preds = Suc MaxLevel" "length succs = Suc MaxLevel"
  shows "findNode s key preds succs \<noteq> Some (Inl OutOfBounds)"
proof
  assume a: "findNode s key preds succs = Some (Inl OutOfBounds)"
  from find_levels_in_bounds [OF le_refl assms, of s key "Some (head_p s)"] a
  obtain s1 ps ss where
    f: "find_levels MaxLevel s key (Some (head_p s)) preds succs = Some (Inr (s1, ps, ss))"
    by (auto simp: findNode_def split: option.splits sum.splits)
  from find_levels_frame [OF f] assms have "0 < length ss"
    by simp
  then have ix: "at_index ss 0 = Inr (ss ! 0)"
    by (simp add: at_index_def)
  from a have "(if ss ! 0 \<noteq> Some (tail_p s1) then
                 (case load_node s1 (ss ! 0) of
                    Inl e \<Rightarrow> Some (Inl e)
                  | Inr n \<Rightarrow> Some (Inr (val n = key, ps, ss, s1)))
               else Some (Inr (False, ps, ss, s1))) = Some (Inl OutOfBounds)"
    by (simp add: findNode_def f ix)
  with load_node_in_bounds [of s1 "ss ! 0"] show False
    by (cases "load_node s1 (ss ! 0)") (simp_all split: if_splits)
qed


lemma at_index_in_bounds: "i < length xs \<Longrightarrow> at_index xs i = Inr (xs ! i)"
  by (simp add: at_index_def)

lemma link_upper_in_bounds_aux:
  assumes "link_upper s item newNode lvl topLvl preds succs = Some y"
  shows "topLvl \<le> MaxLevel \<and> length preds = Suc MaxLevel \<and> length succs = Suc MaxLevel
           \<longrightarrow> y \<noteq> Inl OutOfBounds"
proof (rule link_upper.raw_induct
    [where P = "\<lambda>s item newNode lvl topLvl preds succs y.
        topLvl \<le> MaxLevel \<and> length preds = Suc MaxLevel \<and> length succs = Suc MaxLevel
           \<longrightarrow> y \<noteq> Inl OutOfBounds",
      OF _ assms], goal_cases)
  case (1 f s item newNode lvl topLvl preds succs y)
  show ?case
  proof (intro impI notI)
    assume b: "topLvl \<le> MaxLevel \<and> length preds = Suc MaxLevel \<and> length succs = Suc MaxLevel"
      and y: "y = Inl OutOfBounds"
    show False
    proof (cases "lvl \<le> topLvl")
      case False
      with 1(2) y show False by simp
    next
      case True
      with b have ip: "at_index preds lvl = Inr (preds ! lvl)" and iss: "at_index succs lvl = Inr (succs ! lvl)"
        by (simp_all add: at_index_in_bounds)
      from True b have l: "lvl \<le> MaxLevel" by simp
      show False
      proof (cases "cas_next s (preds ! lvl) lvl (succs ! lvl) newNode")
        case (Inl e)
        with 1(2) y True ip iss cas_next_in_bounds [OF l, of s "preds ! lvl" "succs ! lvl" newNode]
        show False by simp
      next
        case (Inr r)
        obtain ok e' s1 where r: "r = (ok, e', s1)" by (cases r)
        show False
        proof (cases ok)
          case True
          with 1(2) y \<open>lvl \<le> topLvl\<close> ip iss Inr r
          have "f s1 item newNode (Suc lvl) topLvl preds succs = Some (Inl OutOfBounds)"
            by simp
          with 1(1) b show False by blast
        next
          case False
          have len: "length (succs[lvl := e']) = Suc MaxLevel" using b by simp
          from findNode_in_bounds [OF _ len, of preds s1 item] b
          have nb: "findNode s1 item preds (succs[lvl := e']) \<noteq> Some (Inl OutOfBounds)" by simp
          from 1(2) y \<open>lvl \<le> topLvl\<close> ip iss Inr r False nb
          obtain found ps ss s2 where
            fn: "findNode s1 item preds (succs[lvl := e']) = Some (Inr (found, ps, ss, s2))"
            and rec: "f s2 item newNode lvl topLvl ps ss = Some (Inl OutOfBounds)"
            by (auto split: option.splits sum.splits)
          from findNode_frame [OF fn] b len have "length ps = Suc MaxLevel" "length ss = Suc MaxLevel"
            by simp_all
          with 1(1) [OF rec] b show False by simp
        qed
      qed
    qed
  qed
qed

lemma link_upper_in_bounds:
  "topLvl \<le> MaxLevel \<Longrightarrow> length preds = Suc MaxLevel \<Longrightarrow> length succs = Suc MaxLevel \<Longrightarrow>
   link_upper s item newNode lvl topLvl preds succs \<noteq> Some (Inl OutOfBounds)"
  using link_upper_in_bounds_aux by blast

lemma store_succs_in_bounds:
  "\<forall>l \<in> set lvls. l < length (nexts n) \<and> l < length succs \<Longrightarrow>
   store_succs lvls n succs \<noteq> Inl OutOfBounds"
  by (induction lvls arbitrary: n) (auto simp: at_index_def)


lemma set_fullyLinked_in_bounds: "set_fullyLinked s p \<noteq> Inl OutOfBounds"
  using load_node_in_bounds [of s p]
  by (auto simp: set_fullyLinked_def split: option.splits sum.splits)

lemma push_loop_in_bounds_aux:
  assumes "push_loop s item topLvl preds succs = Some y"
  shows "topLvl \<le> MaxLevel \<and> length preds = Suc MaxLevel \<and> length succs = Suc MaxLevel
           \<longrightarrow> y \<noteq> Inl OutOfBounds"
proof (rule push_loop.raw_induct
    [where P = "\<lambda>s item topLvl preds succs y.
        topLvl \<le> MaxLevel \<and> length preds = Suc MaxLevel \<and> length succs = Suc MaxLevel
           \<longrightarrow> y \<noteq> Inl OutOfBounds",
      OF _ assms], goal_cases)
  case (1 f s item topLvl preds succs y)
  show ?case
  proof (intro impI notI)
    assume b: "topLvl \<le> MaxLevel \<and> length preds = Suc MaxLevel \<and> length succs = Suc MaxLevel"
      and y: "y = Inl OutOfBounds"
    from b findNode_in_bounds [of preds succs s item]
    have nb: "findNode s item preds succs \<noteq> Some (Inl OutOfBounds)" by simp
    with 1(2) y obtain found ps ss s1 where
      fn: "findNode s item preds succs = Some (Inr (found, ps, ss, s1))"
      by (auto split: option.splits sum.splits)
    from findNode_frame [OF fn] b have len: "length ps = Suc MaxLevel" "length ss = Suc MaxLevel"
      by simp_all
    from 1(2) y fn obtain a s2 where
      nw: "new_Node s1 (Node_value item topLvl) = Some (a, s2)"
      by (auto split: option.splits)
    have "store_succs [0..<Suc topLvl] (Node_value item topLvl) ss \<noteq> Inl OutOfBounds"
      using b len by (intro store_succs_in_bounds) (auto simp: Node_value_def)
    with 1(2) y fn nw b obtain n where
      st: "store_succs [0..<Suc topLvl] (Node_value item topLvl) ss = Inr n"
      by (auto split: sum.splits simp del: upt_Suc)
    from len have ip: "at_index ps 0 = Inr (ps ! 0)" and iss: "at_index ss 0 = Inr (ss ! 0)"
      by (simp_all add: at_index_in_bounds)
    from cas_next_in_bounds [of 0 "put_node s2 a n" "ps ! 0" "ss ! 0" "Some a"]
    have cb: "cas_next (put_node s2 a n) (ps ! 0) 0 (ss ! 0) (Some a) \<noteq> Inl OutOfBounds"
      by simp
    with 1(2) y fn nw b st ip iss obtain ok e' s3 where
      cs: "cas_next (put_node s2 a n) (ps ! 0) 0 (ss ! 0) (Some a) = Inr (ok, e', s3)"
      by (auto split: sum.splits simp del: upt_Suc)
    show False
    proof (cases ok)
      case False
      with 1(2) y fn nw b st ip iss cs
      have "f (delete_Node (Some a) s3) item topLvl ps ss = Some (Inl OutOfBounds)"
        by (simp del: upt_Suc)
      with 1(1) b len show False by blast
    next
      case True
      from link_upper_in_bounds [of topLvl ps ss s3 item "Some a" 1] b len
      have lb: "link_upper s3 item (Some a) 1 topLvl ps ss \<noteq> Some (Inl OutOfBounds)"
        by simp
      with 1(2) y fn nw b st ip iss cs True set_fullyLinked_in_bounds show False
        by (auto split: option.splits sum.splits simp del: upt_Suc)
    qed
  qed
qed

section \<open>Allocation failure\<close>

lemma push_at_alloc_failure:
  assumes "mem_left s = 0"
    and "findNode s item local_array local_array = Some (Inr (found, ps, ss, s1))"
  shows "push_at k item s = Some (Inl Terminated)"
proof -
  from findNode_frame [OF assms(2)] assms(1) have "mem_left s1 = 0"
    by (simp add: frame_def)
  with assms(2) show ?thesis
    unfolding push_at_def by (subst push_loop.simps) (simp add: new_Node_def)
qed

lemma push_without_memory_never_returns:
  assumes "mem_left s = 0"
  shows "push rng i item s \<noteq> Some (Inr x)"
proof -
  obtain k j where k: "randomLevel rng i = (k, j)"
    by (cases "randomLevel rng i")
  have "push_at k item s \<noteq> Some (Inr y)" for y
  proof (cases "findNode s item local_array local_array")
    case None
    then show ?thesis
      unfolding push_at_def by (subst push_loop.simps) simp
  next
    case (Some r)
    show ?thesis
    proof (cases r)
      case (Inl e)
      with Some show ?thesis
        unfolding push_at_def by (subst push_loop.simps) simp
    next
      case (Inr v)
      obtain found ps ss s1 where "v = (found, ps, ss, s1)" by (cases v)
      with Some Inr push_at_alloc_failure [OF assms, of item found ps ss s1 k] show ?thesis
        by simp
    qed
  qed
  with k show ?thesis
    by (auto simp: push_def split: option.splits sum.splits)
qed

section \<open>\<^verbatim>\<open>push\<close> on a well-formed skip list\<close>

text \<open>
  On a skip list of unmarked nodes the traversal changes nothing and stops, at every
  level, between the last node below the key and the first node not below it; if there
  is no such node it runs into the tail sentinel and faults. From there \<^verbatim>\<open>push\<close>
  allocates the node at the next free address and links it between the two, level by
  level.
\<close>

lemma pseg_append:
  "pseg s l (xs @ ys) p q \<longleftrightarrow> (\<exists>r. pseg s l xs p r \<and> pseg s l ys r q)"
  by (induction xs arbitrary: p) (auto split: sum.splits)

lemma pseg_cong:
  "tail_p s' = tail_p s \<Longrightarrow>
   (\<And>a. a \<in> set as \<Longrightarrow> load_next s' (Some a) l = load_next s (Some a) l) \<Longrightarrow>
   pseg s' l as p q = pseg s l as p q"
  by (induction as arbitrary: p) (auto split: sum.splits)

lemma lseg_unique: "lseg s l as p \<Longrightarrow> lseg s l bs p \<Longrightarrow> as = bs"
  unfolding lseg_def
proof (induction as arbitrary: p bs)
  case Nil
  then show ?case by (cases bs) auto
next
  case (Cons a as)
  then show ?case by (cases bs) (auto split: sum.splits)
qed

lemma lseg_distinct: "lseg s l as p \<Longrightarrow> distinct as"
proof (induction as arbitrary: p)
  case Nil
  then show ?case by simp
next
  case (Cons a as)
  from Cons.prems obtain r where r: "load_next s (Some a) l = Inr r" and tl: "lseg s l as r"
    and p: "p = Some a"
    by (auto simp: lseg_def split: sum.splits)
  have "a \<notin> set as"
  proof
    assume "a \<in> set as"
    then obtain xs ys where as: "as = xs @ a # ys"
      by (auto simp: in_set_conv_decomp)
    with tl obtain q where "pseg s l (a # ys) q (Some (tail_p s))"
      by (auto simp: lseg_def pseg_append)
    then have "lseg s l (a # ys) (Some a)"
      by (auto simp: lseg_def)
    with Cons.prems p have "a # as = a # ys"
      by (auto dest: lseg_unique)
    with as show False by simp
  qed
  with Cons.IH [OF tl] show ?case by simp
qed

lemma lseg_split:
  assumes "lseg s l as p" "x \<in> set as"
  shows "\<exists>pre post r. as = pre @ x # post \<and> x \<notin> set pre \<and> x \<notin> set post \<and>
           pseg s l pre p (Some x) \<and> x \<noteq> tail_p s \<and>
           load_next s (Some x) l = Inr r \<and> lseg s l post r"
proof -
  from assms(2) obtain pre post where as: "as = pre @ x # post"
    by (auto simp: in_set_conv_decomp)
  from lseg_distinct [OF assms(1)] as have d: "x \<notin> set pre" "x \<notin> set post"
    by auto
  from assms(1) as obtain q where "pseg s l pre p q" "pseg s l (x # post) q (Some (tail_p s))"
    by (auto simp: lseg_def pseg_append)
  then show ?thesis
    using as d by (auto simp: lseg_def split: sum.splits)
qed

lemma skip_marked_unmarked:
  "load_node s c = Inr n \<Longrightarrow> \<not> marked n \<Longrightarrow>
   skip_marked s p l c su = Some (Inr (s, c, su))"
  by (subst skip_marked.simps) simp

lemma walk_level_tail_faults:
  assumes "tail_ok s" "l \<le> MaxLevel"
  shows "walk_level s key l p (Some (tail_p s)) = Some (Inl NullDeref)"
proof -
  from assms(1) obtain t where t: "load_node s (Some (tail_p s)) = Inr t"
    and n: "nexts t = replicate (Suc MaxLevel) None" and m: "\<not> marked t"
    by (auto simp: tail_ok_def split: sum.splits)
  from n assms(2) have "slot t l = Inr None"
    by (simp add: slot_def del: replicate.simps)
  with t m show ?thesis
    by (intro walk_level_at_tail)
qed

lemma walk_level_lseg:
  assumes "tail_ok s" "l \<le> MaxLevel"
  shows "lseg s l as c \<Longrightarrow> \<forall>a \<in> set as. unmarked_at s a \<Longrightarrow> load_next s p l = Inr c \<Longrightarrow>
         walk_level s key l p c = Some (Inr (s', p', c')) \<Longrightarrow>
         s' = s \<and>
         (\<exists>pre x post n. as = pre @ x # post \<and> c' = Some x \<and> p' = last (p # map Some pre) \<and>
            load_next s p' l = Inr c' \<and> load_node s (Some x) = Inr n \<and> \<not> val n < key \<and>
            (\<forall>y \<in> set pre. \<exists>m. load_node s (Some y) = Inr m \<and> val m < key))"
proof (induction as arbitrary: p c)
  case Nil
  then have "c = Some (tail_p s)" by (simp add: lseg_def)
  with Nil.prems(4) walk_level_tail_faults [OF assms, of key p] show ?case by simp
next
  case (Cons a as)
  from Cons.prems(1) obtain q where c: "c = Some a" and a: "a \<noteq> tail_p s"
    and q: "load_next s (Some a) l = Inr q" and tl: "lseg s l as q"
    by (auto simp: lseg_def split: sum.splits)
  from q obtain n where n: "load_node s (Some a) = Inr n"
    by (auto simp: load_next_def split: sum.splits)
  from Cons.prems(2) n have m: "\<not> marked n" and um: "\<forall>a \<in> set as. unmarked_at s a"
    by (auto simp: unmarked_at_def)
  show ?case
  proof (cases "val n < key")
    case True
    with Cons.prems(4) c a q n have "walk_level s key l (Some a) q = Some (Inr (s', p', c'))"
      by (subst (asm) walk_level.simps) (simp add: skip_marked_unmarked [OF n m])
    from Cons.IH [OF tl um q this] obtain pre x post m where
      "s' = s" "as = pre @ x # post" "c' = Some x" "p' = last (Some a # map Some pre)"
      "load_next s p' l = Inr c'" "load_node s (Some x) = Inr m" "\<not> val m < key"
      "\<forall>y \<in> set pre. \<exists>m. load_node s (Some y) = Inr m \<and> val m < key"
      by blast
    with True n show ?thesis
      by (intro conjI exI [of _ "a # pre"] exI [of _ x] exI [of _ post] exI [of _ m]) auto
  next
    case False
    with Cons.prems(4) c a q n have "s' = s" "p' = p" "c' = Some a"
      by (subst (asm) walk_level.simps, simp add: skip_marked_unmarked [OF n m])+
    with False n Cons.prems(3) c show ?thesis
      by (intro conjI exI [of _ "[]"] exI [of _ a] exI [of _ as] exI [of _ n]) auto
  qed
qed

lemma find_level_lseg:
  assumes "tail_ok s" "l \<le> MaxLevel"
    and "lseg s l xs (Some (head_p s))" "a \<in> set xs" "below s key a"
    and "find_level l s key (Some a) preds succs = Some (Inr (s', p', ps, ss))"
    and um: "\<forall>a \<in> set xs. unmarked_at s a"
  shows "s' = s \<and> l < length preds \<and> l < length succs \<and>
         (\<exists>c'. ps = preds[l := p'] \<and> ss = succs[l := c'] \<and> found_at s key xs l p' c')"
proof -
  from lseg_split [OF assms(3,4)] obtain pre0 post r where
    xs: "xs = pre0 @ a # post" and r: "load_next s (Some a) l = Inr r" and post: "lseg s l post r"
    by blast
  from um xs have um': "\<forall>a \<in> set post. unmarked_at s a"
    by simp
  from assms(6) r obtain c' where
    w: "walk_level s key l (Some a) r = Some (Inr (s', p', c'))"
    and b: "l < length preds" "l < length succs"
    and o: "ps = preds[l := p']" "ss = succs[l := c']"
    by (auto simp: find_level_def split: option.splits sum.splits if_splits)
  from walk_level_lseg [OF assms(1,2) post um' r w] obtain pre x post' n where
    s: "s' = s" and p: "post = pre @ x # post'" and c: "c' = Some x"
    and p': "p' = last (Some a # map Some pre)" and ld: "load_next s p' l = Inr c'"
    and n: "load_node s (Some x) = Inr n" "\<not> val n < key"
    and lt: "\<forall>y \<in> set pre. \<exists>m. load_node s (Some y) = Inr m \<and> val m < key"
    by blast
  have "\<exists>b. p' = Some b \<and> b \<in> set xs \<and> below s key b"
  proof (cases pre rule: rev_cases)
    case Nil
    with p' assms(4,5) show ?thesis by simp
  next
    case (snoc ys y)
    with p' have "p' = Some y" by simp
    moreover from snoc xs p have "y \<in> set xs" by simp
    moreover from snoc lt have "below s key y" by (auto simp: below_def)
    ultimately show ?thesis by blast
  qed
  then obtain b where b': "p' = Some b" "b \<in> set xs" "below s key b" by blast
  from xs p have "x \<in> set xs" by simp
  with b' c ld n have "found_at s key xs l p' c'"
    by (auto simp: found_at_def not_below_def)
  with s o b show ?thesis by blast
qed

lemma find_levels_lseg:
  assumes "skiplist s xs"
  shows "l \<le> MaxLevel \<Longrightarrow> a \<in> set (xs l) \<Longrightarrow> below s key a \<Longrightarrow>
         find_levels l s key (Some a) preds succs = Some (Inr (s', ps, ss)) \<Longrightarrow>
         s' = s \<and> length ps = length preds \<and> length ss = length succs \<and>
         l < length preds \<and> l < length succs \<and>
         (\<forall>j \<le> l. found_at s key (xs j) j (ps ! j) (ss ! j)) \<and>
         (\<forall>j > l. ps ! j = preds ! j \<and> ss ! j = succs ! j)"
proof (induction l arbitrary: a preds succs)
  case 0
  from assms have u: "tail_ok s" and p: "lseg s 0 (xs 0) (Some (head_p s))"
    and um: "\<forall>a \<in> set (xs 0). unmarked_at s a"
    by (auto simp: skiplist_def)
  from "0.prems"(4) obtain p1 where
    f: "find_level 0 s key (Some a) preds succs = Some (Inr (s', p1, ps, ss))"
    by (auto split: option.splits sum.splits)
  from find_level_lseg [OF u "0.prems"(1) p "0.prems"(2,3) f um] obtain c1 where
    "s' = s" "0 < length preds" "0 < length succs" "ps = preds[0 := p1]" "ss = succs[0 := c1]"
    "found_at s key (xs 0) 0 p1 c1"
    by blast
  then show ?case by simp
next
  case (Suc l)
  from assms Suc.prems(1) have u: "tail_ok s"
    and p: "lseg s (Suc l) (xs (Suc l)) (Some (head_p s))"
    and um: "\<forall>a \<in> set (xs (Suc l)). unmarked_at s a"
    and sub: "set (xs (Suc l)) \<subseteq> set (xs l)"
    by (auto simp: skiplist_def)
  from Suc.prems(4) obtain s1 p1 ps1 ss1 where
    f: "find_level (Suc l) s key (Some a) preds succs = Some (Inr (s1, p1, ps1, ss1))"
    and r: "find_levels l s1 key p1 ps1 ss1 = Some (Inr (s', ps, ss))"
    by (auto split: option.splits sum.splits)
  from find_level_lseg [OF u Suc.prems(1) p Suc.prems(2,3) f um] obtain c1 where
    s1: "s1 = s" and ps1: "ps1 = preds[Suc l := p1]" and ss1: "ss1 = succs[Suc l := c1]"
    and b: "Suc l < length preds" "Suc l < length succs"
    and fa: "found_at s key (xs (Suc l)) (Suc l) p1 c1"
    by blast
  from fa obtain a1 where a1: "p1 = Some a1" "a1 \<in> set (xs (Suc l))" "below s key a1"
    by (auto simp: found_at_def)
  with sub have "a1 \<in> set (xs l)" by blast
  with Suc.IH [of a1 ps1 ss1] Suc.prems(1) a1 r s1 have
    ih: "s' = s" "length ps = length ps1" "length ss = length ss1"
      "\<forall>j \<le> l. found_at s key (xs j) j (ps ! j) (ss ! j)"
      "\<forall>j > l. ps ! j = ps1 ! j \<and> ss ! j = ss1 ! j"
    by auto
  from ih(5) ps1 ss1 b have top: "ps ! Suc l = p1" "ss ! Suc l = c1"
    by simp_all
  have "found_at s key (xs j) j (ps ! j) (ss ! j)" if "j \<le> Suc l" for j
  proof (cases "j = Suc l")
    case True
    with fa top show ?thesis by simp
  next
    case False
    with that ih(4) show ?thesis by simp
  qed
  moreover have "ps ! j = preds ! j \<and> ss ! j = succs ! j" if "j > Suc l" for j
    using that ih(5) ps1 ss1 by simp
  ultimately show ?case
    using ih(1-3) ps1 ss1 b by simp
qed

lemma below_head [simp]: "below s key (head_p s)"
  by (simp add: below_def)

lemma findNode_lseg:
  assumes "skiplist s xs" "MaxLevel < length preds" "MaxLevel < length succs"
    and "findNode s key preds succs = Some (Inr (found, ps, ss, s'))"
  shows "s' = s \<and> length ps = length preds \<and> length ss = length succs \<and>
         (\<forall>j \<le> MaxLevel. found_at s key (xs j) j (ps ! j) (ss ! j))"
proof -
  from assms(4) obtain s1 where
    f: "find_levels MaxLevel s key (Some (head_p s)) preds succs = Some (Inr (s1, ps, ss))"
    and s1: "s' = s1"
    by (auto simp: findNode_def split: option.splits sum.splits if_splits)
  from assms(1) have "head_p s \<in> set (xs MaxLevel)"
    by (simp add: skiplist_def)
  from find_levels_lseg [OF assms(1) le_refl this below_head f] s1 show ?thesis
    by simp
qed

lemma load_node_put_node:
  "load_node (put_node s a n) (Some b) =
     (if b = a \<and> a < length (heap s) then Inr n else load_node s (Some b))"
  by (auto simp: load_node_def put_node_def)

lemma cas_next_success:
  assumes "load_next s (Some a) l = Inr e"
  shows "\<exists>s'. cas_next s (Some a) l e d = Inr (True, e, s') \<and> same_but s s' \<and>
           (\<forall>b j. load_next s' (Some b) j =
              (if b = a \<and> j = l then Inr d else load_next s (Some b) j))"
proof -
  from assms obtain n where n: "load_node s (Some a) = Inr n" and sl: "slot n l = Inr e"
    by (auto simp: load_next_def split: sum.splits)
  from n have lt: "a < length (heap s)"
    by (auto simp: load_node_def split: if_splits)
  from sl have ll: "l < length (nexts n)" and e: "nexts n ! l = e"
    by (auto simp: slot_def split: if_splits)
  let ?s' = "put_node s a (n\<lparr>nexts := (nexts n)[l := d]\<rparr>)"
  have "cas_next s (Some a) l e d = Inr (True, e, ?s')"
    using n sl by (simp add: cas_next_def)
  moreover have "same_but s ?s'"
    using n lt by (auto simp: same_but_def value_at_def load_node_put_node) (simp_all add: put_node_def)
  moreover have "load_next ?s' (Some b) j =
      (if b = a \<and> j = l then Inr d else load_next s (Some b) j)" for b j
    using n lt ll by (auto simp: load_next_def load_node_put_node slot_def nth_list_update)
  ultimately show ?thesis by blast
qed

lemma same_but_refl [simp]: "same_but s s"
  by (simp add: same_but_def)

lemma same_but_trans: "same_but s s1 \<Longrightarrow> same_but s1 s2 \<Longrightarrow> same_but s s2"
  by (simp add: same_but_def)

lemma link_upper_run:
  assumes "k < length ps" "k < length ss"
  shows "n = Suc k - m \<Longrightarrow> m \<le> Suc k \<Longrightarrow>
         (\<forall>j. m \<le> j \<and> j \<le> k \<longrightarrow>
              (\<exists>a. ps ! j = Some a \<and> load_next st (Some a) j = Inr (ss ! j))) \<Longrightarrow>
         \<exists>st'. link_upper st item nw m k ps ss = Some (Inr st') \<and> same_but st st' \<and>
           (\<forall>b j. load_next st' (Some b) j =
              (if m \<le> j \<and> j \<le> k \<and> ps ! j = Some b then Inr nw
               else load_next st (Some b) j))"
proof (induction n arbitrary: m st)
  case 0
  then have "m = Suc k" by simp
  then show ?case
    by (subst link_upper.simps) auto
next
  case (Suc n)
  then have mk: "m \<le> k" by simp
  with Suc.prems(3) obtain a where a: "ps ! m = Some a"
    and ld: "load_next st (Some a) m = Inr (ss ! m)"
    by blast
  from cas_next_success [OF ld, of nw] obtain st1 where
    cas: "cas_next st (Some a) m (ss ! m) nw = Inr (True, ss ! m, st1)"
    and sb: "same_but st st1"
    and v1: "\<And>b j. load_next st1 (Some b) j =
               (if b = a \<and> j = m then Inr nw else load_next st (Some b) j)"
    by blast
  have pre: "\<forall>j. Suc m \<le> j \<and> j \<le> k \<longrightarrow>
               (\<exists>a. ps ! j = Some a \<and> load_next st1 (Some a) j = Inr (ss ! j))"
    using Suc.prems(3) v1 by auto
  have n: "n = Suc k - Suc m" "Suc m \<le> Suc k"
    using Suc.prems(1) mk by simp_all
  from Suc.IH [OF n pre] obtain st' where
    r: "link_upper st1 item nw (Suc m) k ps ss = Some (Inr st')"
    and sb': "same_but st1 st'"
    and v': "\<And>b j. load_next st' (Some b) j =
               (if Suc m \<le> j \<and> j \<le> k \<and> ps ! j = Some b then Inr nw
                else load_next st1 (Some b) j)"
    by blast
  have "link_upper st item nw m k ps ss = Some (Inr st')"
    using mk assms a cas r by (subst link_upper.simps) (simp add: at_index_def)
  moreover have "load_next st' (Some b) j =
      (if m \<le> j \<and> j \<le> k \<and> ps ! j = Some b then Inr nw else load_next st (Some b) j)" for b j
  proof (cases "j = m")
    case True
    with v' [of b j] v1 [of b j] a mk show ?thesis by auto
  next
    case False
    with v' [of b j] v1 [of b j] show ?thesis by auto
  qed
  ultimately show ?case
    using same_but_trans [OF sb sb'] by blast
qed

lemma store_succs_result:
  "n = m - i \<Longrightarrow> i \<le> m \<Longrightarrow> length (nexts nd) = m \<Longrightarrow> m \<le> length ss \<Longrightarrow>
   \<exists>nd'. store_succs [i..<m] nd ss = Inr nd' \<and> val nd' = val nd \<and>
     length (nexts nd') = m \<and>
     (\<forall>l < m. nexts nd' ! l = (if i \<le> l then ss ! l else nexts nd ! l))"
proof (induction n arbitrary: i nd)
  case 0
  then show ?case by simp
next
  case (Suc n)
  then have im: "i < m" by simp
  then have upt: "[i..<m] = i # [Suc i..<m]"
    by (simp add: upt_conv_Cons)
  let ?nd1 = "nd\<lparr>nexts := (nexts nd)[i := ss ! i]\<rparr>"
  from Suc.prems im have "n = m - Suc i" "Suc i \<le> m" "length (nexts ?nd1) = m"
    by simp_all
  from Suc.IH [OF this Suc.prems(4)] obtain nd' where
    r: "store_succs [Suc i..<m] ?nd1 ss = Inr nd'" and v: "val nd' = val ?nd1"
    and len: "length (nexts nd') = m"
    and nx: "\<forall>l < m. nexts nd' ! l = (if Suc i \<le> l then ss ! l else nexts ?nd1 ! l)"
    by blast
  from r im Suc.prems have "store_succs [i..<m] nd ss = Inr nd'"
    by (simp add: upt at_index_def)
  moreover have "nexts nd' ! l = (if i \<le> l then ss ! l else nexts nd ! l)" if "l < m" for l
  proof (cases "l = i")
    case True
    with nx that Suc.prems show ?thesis by simp
  next
    case False
    then have "Suc i \<le> l \<longleftrightarrow> i \<le> l" by arith
    with nx that False show ?thesis by simp
  qed
  ultimately show ?case
    using v len by auto
qed

lemma load_node_fresh:
  "load_node (put_node (s\<lparr>heap := heap s @ [Some nd0], mem_left := ml\<rparr>) (length (heap s)) nd)
     (Some b) =
   (if b = length (heap s) then Inr nd else load_node s (Some b))"
  by (auto simp: load_node_def put_node_def nth_append)

lemma load_node_beyond: "load_node s (Some (length (heap s))) = Inl UseAfterFree"
  by (simp add: load_node_def)

lemma set_fullyLinked_view:
  assumes "value_at st a = Some v"
  shows "\<exists>st'. set_fullyLinked st (Some a) = Inr st' \<and> same_but st st' \<and>
           (\<forall>b j. load_next st' (Some b) j = load_next st (Some b) j)"
proof -
  from assms obtain n where n: "load_node st (Some a) = Inr n"
    by (auto simp: value_at_def split: sum.splits)
  then have lt: "a < length (heap st)"
    by (auto simp: load_node_def split: if_splits)
  let ?st' = "put_node st a (n\<lparr>fullyLinked := True\<rparr>)"
  have "set_fullyLinked st (Some a) = Inr ?st'"
    using n by (simp add: set_fullyLinked_def)
  moreover have "same_but st ?st'"
    using n lt by (auto simp: same_but_def value_at_def load_node_put_node) (simp_all add: put_node_def)
  moreover have "load_next ?st' (Some b) j = load_next st (Some b) j" for b j
    using n lt by (auto simp: load_next_def load_node_put_node slot_def)
  ultimately show ?thesis by blast
qed

lemma load_node_count [simp]: "load_node (s\<lparr>count_p := c\<rparr>) p = load_node s p"
  by (cases p) (simp_all add: load_node_def)

lemma load_next_count [simp]: "load_next (s\<lparr>count_p := c\<rparr>) p l = load_next s p l"
  by (simp add: load_next_def)

lemma value_at_count [simp]: "value_at (s\<lparr>count_p := c\<rparr>) a = value_at s a"
  by (simp add: value_at_def)

lemma found_at_old:
  assumes "found_at s key xs l p c"
  shows "\<exists>a x. p = Some a \<and> c = Some x \<and> a \<noteq> length (heap s) \<and>
           load_next s (Some a) l = Inr (Some x)"
  using assms by (auto simp: found_at_def load_next_def load_node_beyond)

lemma push_at_view:
  assumes sk: "skiplist s xs" and k: "k \<le> MaxLevel"
    and push: "push_at k item s = Some (Inr s')"
  shows "\<exists>ps ss. (\<forall>j \<le> MaxLevel. found_at s item (xs j) j (ps ! j) (ss ! j)) \<and>
      head_p s' = head_p s \<and> tail_p s' = tail_p s \<and>
      (\<forall>b j. load_next s' (Some b) j =
         (if j \<le> k \<and> ps ! j = Some b then Inr (Some (length (heap s)))
          else if b = length (heap s) then
            (if j \<le> k then Inr (ss ! j)
             else if j \<le> MaxLevel then Inl UninitRead else Inl OutOfBounds)
          else load_next s (Some b) j)) \<and>
      (\<forall>b. value_at s' b = (if b = length (heap s) then Some item else value_at s b))"
proof -
  let ?a = "length (heap s)"
  obtain found ps ss s1 where
    fn: "findNode s item local_array local_array = Some (Inr (found, ps, ss, s1))"
  proof (cases "findNode s item local_array local_array")
    case None
    with push show ?thesis
      unfolding push_at_def by (subst (asm) push_loop.simps) simp
  next
    case (Some r)
    show ?thesis
    proof (cases r)
      case (Inl e)
      with Some push show ?thesis
        unfolding push_at_def by (subst (asm) push_loop.simps) simp
    next
      case (Inr v)
      with Some that show ?thesis by (cases v) auto
    qed
  qed
  have la: "MaxLevel < length local_array"
    by (simp add: local_array_def)
  from findNode_lseg [OF sk la la fn] have s1: "s1 = s"
    and lps: "length ps = Suc MaxLevel" and lss: "length ss = Suc MaxLevel"
    and fa: "\<forall>j \<le> MaxLevel. found_at s item (xs j) j (ps ! j) (ss ! j)"
    by (simp_all add: local_array_def)
  have mem: "mem_left s \<noteq> 0"
    using push_at_alloc_failure [OF _ fn, of k] push by auto
  define s2 where "s2 = s\<lparr>heap := heap s @ [Some (Node_value item k)], mem_left := mem_left s - 1\<rparr>"
  have nw: "new_Node s (Node_value item k) = Some (?a, s2)"
    using mem by (simp add: new_Node_def s2_def)
  from store_succs_result [of "Suc k" "Suc k" 0 "Node_value item k" ss] k lss
  obtain nd where st: "store_succs [0..<Suc k] (Node_value item k) ss = Inr nd"
    and vnd: "val nd = item" and lnd: "length (nexts nd) = Suc k"
    and nnd: "\<forall>l < Suc k. nexts nd ! l = ss ! l"
    by (auto simp: Node_value_def)
  define st0 where "st0 = put_node s2 ?a nd"
  have sl: "slot nd j = (if j \<le> k then Inr (ss ! j)
              else if j \<le> MaxLevel then Inl UninitRead else Inl OutOfBounds)" for j
    using lnd nnd by (auto simp: slot_def)
  have v0: "load_next st0 (Some b) j = (if b = ?a then slot nd j else load_next s (Some b) j)" for b j
    unfolding st0_def s2_def load_next_def by (simp add: load_node_fresh)
  have val0: "value_at st0 b = (if b = ?a then Some item else value_at s b)" for b
    unfolding st0_def s2_def value_at_def by (simp add: load_node_fresh vnd)
  have h0: "head_p st0 = head_p s" "tail_p st0 = tail_p s"
    by (simp_all add: st0_def s2_def put_node_def)
  from fa found_at_old [of s item "xs 0" 0 "ps ! 0" "ss ! 0"] obtain p0 x0 where
    p0: "ps ! 0 = Some p0" "ss ! 0 = Some x0" "p0 \<noteq> ?a" "load_next s (Some p0) 0 = Inr (Some x0)"
    by auto
  then have "load_next st0 (Some p0) 0 = Inr (ss ! 0)"
    by (simp add: v0)
  from cas_next_success [OF this, of "Some ?a"] obtain st1 where
    cas: "cas_next st0 (Some p0) 0 (ss ! 0) (Some ?a) = Inr (True, ss ! 0, st1)"
    and sb1: "same_but st0 st1"
    and v1: "\<And>b j. load_next st1 (Some b) j =
               (if b = p0 \<and> j = 0 then Inr (Some ?a) else load_next st0 (Some b) j)"
    by blast
  have pre: "\<forall>j. 1 \<le> j \<and> j \<le> k \<longrightarrow>
               (\<exists>a. ps ! j = Some a \<and> load_next st1 (Some a) j = Inr (ss ! j))"
  proof (intro allI impI)
    fix j assume j: "1 \<le> j \<and> j \<le> k"
    with k fa found_at_old [of s item "xs j" j "ps ! j" "ss ! j"] obtain pj xj where
      "ps ! j = Some pj" "ss ! j = Some xj" "pj \<noteq> ?a" "load_next s (Some pj) j = Inr (Some xj)"
      by auto
    with j show "\<exists>a. ps ! j = Some a \<and> load_next st1 (Some a) j = Inr (ss ! j)"
      by (simp add: v1 v0)
  qed
  from k lps lss have kl: "k < length ps" "k < length ss" by simp_all
  from link_upper_run [OF kl refl _ pre, of item "Some ?a"] obtain st2 where
    lu: "link_upper st1 item (Some ?a) 1 k ps ss = Some (Inr st2)"
    and sb2: "same_but st1 st2"
    and v2: "\<And>b j. load_next st2 (Some b) j =
               (if 1 \<le> j \<and> j \<le> k \<and> ps ! j = Some b then Inr (Some ?a)
                else load_next st1 (Some b) j)"
    by auto
  from sb1 sb2 val0 have val2: "value_at st2 b = (if b = ?a then Some item else value_at s b)" for b
    by (simp add: same_but_def)
  then have "value_at st2 ?a = Some item" by simp
  from set_fullyLinked_view [OF this] obtain st3 where
    fl: "set_fullyLinked st2 (Some ?a) = Inr st3"
    and sb3: "same_but st2 st3"
    and v3: "\<And>b j. load_next st3 (Some b) j = load_next st2 (Some b) j"
    by blast
  have "push_at k item s = Some (Inr (st3\<lparr>count_p := count_p st3 + 1\<rparr>))"
    unfolding push_at_def
    using fn s1 nw k st lps lss p0 cas lu fl
    by (subst push_loop.simps) (simp add: at_index_def st0_def del: upt_Suc)
  with push have s': "s' = st3\<lparr>count_p := count_p st3 + 1\<rparr>" by simp
  have "load_next s' (Some b) j =
         (if j \<le> k \<and> ps ! j = Some b then Inr (Some ?a)
          else if b = ?a then
            (if j \<le> k then Inr (ss ! j)
             else if j \<le> MaxLevel then Inl UninitRead else Inl OutOfBounds)
          else load_next s (Some b) j)" for b j
  proof (cases "j = 0")
    case True
    with p0 show ?thesis
      by (auto simp: s' v3 v2 v1 v0 sl)
  next
    case False
    then show ?thesis
      by (auto simp: s' v3 v2 v1 v0 sl)
  qed
  moreover have "value_at s' b = (if b = ?a then Some item else value_at s b)" for b
    using sb3 val2 by (simp add: s' same_but_def)
  moreover have "head_p s' = head_p s" "tail_p s' = tail_p s"
    using sb1 sb2 sb3 h0 by (simp_all add: s' same_but_def)
  ultimately show ?thesis
    using fa by blast
qed

lemma pseg_loadable:
  "pseg s l as p q \<Longrightarrow> a \<in> set as \<Longrightarrow> \<exists>r. load_next s (Some a) l = Inr r"
  by (induction as arbitrary: p) (auto split: sum.splits)

lemma lseg_spliced:
  assumes seg: "lseg s l xs p0" and P: "P \<in> set xs" and a: "a \<notin> set xs" "a \<noteq> tail_p s"
    and tl: "tail_p s' = tail_p s"
    and other: "\<And>b. b \<noteq> P \<Longrightarrow> b \<noteq> a \<Longrightarrow> load_next s' (Some b) l = load_next s (Some b) l"
    and atP: "load_next s' (Some P) l = Inr (Some a)"
    and ata: "load_next s' (Some a) l = load_next s (Some P) l"
  shows "\<exists>pre post. xs = pre @ P # post \<and> lseg s' l (pre @ P # a # post) p0"
proof -
  from lseg_split [OF seg P] obtain pre post r where
    xs: "xs = pre @ P # post" and np: "P \<notin> set pre" "P \<notin> set post"
    and pre: "pseg s l pre p0 (Some P)" and Pt: "P \<noteq> tail_p s"
    and r: "load_next s (Some P) l = Inr r" and post: "lseg s l post r"
    by blast
  from a xs have na: "a \<notin> set pre" "a \<notin> set post" by auto
  have "pseg s' l pre p0 (Some P) = pseg s l pre p0 (Some P)"
    using np na by (intro pseg_cong tl other) auto
  with pre have pre': "pseg s' l pre p0 (Some P)" by simp
  have "pseg s' l post r (Some (tail_p s)) = pseg s l post r (Some (tail_p s))"
    using np na by (intro pseg_cong tl other) auto
  with post have post': "pseg s' l post r (Some (tail_p s'))"
    by (simp add: lseg_def tl)
  have "pseg s' l (P # a # post) (Some P) (Some (tail_p s'))"
    using Pt a tl atP ata r post' by simp
  with pre' have "lseg s' l (pre @ P # a # post) p0"
    unfolding lseg_def pseg_append by blast
  with xs show ?thesis by blast
qed

lemma lseg_unchanged:
  assumes "lseg s l xs p0" "tail_p s' = tail_p s"
    and "\<And>b. b \<in> set xs \<Longrightarrow> load_next s' (Some b) l = load_next s (Some b) l"
  shows "lseg s' l xs p0"
  using assms pseg_cong [of s' s xs l p0 "Some (tail_p s)"] by (simp add: lseg_def)

lemma chain_lseg: "chain f s l p = Some ns \<Longrightarrow> lseg s l (map fst ns) p"
proof (induction f arbitrary: p ns)
  case 0
  then show ?case by simp
next
  case (Suc f)
  show ?case
  proof (cases "p = Some (tail_p s)")
    case True
    with Suc.prems show ?thesis by (simp add: lseg_def)
  next
    case False
    with Suc.prems obtain a n q ns' where
      "p = Some a" "load_node s (Some a) = Inr n" "slot n l = Inr q"
      "chain f s l q = Some ns'" "ns = (a, n) # ns'"
      by (auto split: option.splits sum.splits)
    with Suc.IH [of q ns'] False show ?thesis
      by (auto simp: lseg_def load_next_def)
  qed
qed

lemma lseg_chain:
  "lseg s l as p \<Longrightarrow> length as < f \<Longrightarrow> \<exists>ns. chain f s l p = Some ns \<and> map fst ns = as"
proof (induction as arbitrary: f p)
  case Nil
  then show ?case by (cases f) (auto simp: lseg_def)
next
  case (Cons a as)
  from Cons.prems(2) obtain f' where f: "f = Suc f'" "length as < f'"
    by (cases f) auto
  from Cons.prems(1) obtain q n where p: "p = Some a" "a \<noteq> tail_p s"
    and n: "load_node s (Some a) = Inr n" "slot n l = Inr q" and tl: "lseg s l as q"
    by (auto simp: lseg_def load_next_def split: sum.splits)
  from Cons.IH [OF tl f(2)] obtain ns where "chain f' s l q = Some ns" "map fst ns = as"
    by blast
  with f p n show ?case by simp
qed

lemma lseg_length:
  assumes "lseg s l as p"
  shows "length as \<le> length (heap s)"
proof -
  have "a < length (heap s)" if "a \<in> set as" for a
    using pseg_loadable [OF assms [unfolded lseg_def] that]
    by (auto simp: load_next_def load_node_def split: sum.splits if_splits)
  then have "set as \<subseteq> {..<length (heap s)}" by auto
  then have "card (set as) \<le> card {..<length (heap s)}"
    by (intro card_mono) auto
  with lseg_distinct [OF assms] show ?thesis
    by (simp add: distinct_card)
qed

lemma level_nodes_lseg:
  assumes "level_nodes s l = Some ns" "head_p s \<noteq> tail_p s"
  shows "lseg s l (head_p s # map fst ns) (Some (head_p s))"
proof -
  from assms(1) obtain p where p: "load_next s (Some (head_p s)) l = Inr p"
    and c: "chain (Suc (length (heap s))) s l p = Some ns"
    by (auto simp: level_nodes_def split: sum.splits)
  from chain_lseg [OF c] p assms(2) show ?thesis
    by (simp add: lseg_def)
qed

lemma lseg_level_nodes:
  assumes "lseg s l (head_p s # as) (Some (head_p s))"
  shows "\<exists>ns. level_nodes s l = Some ns \<and> map fst ns = as"
proof -
  from assms obtain q where q: "load_next s (Some (head_p s)) l = Inr q" and tl: "lseg s l as q"
    by (auto simp: lseg_def split: sum.splits)
  from lseg_length [OF assms] have "length as < Suc (length (heap s))" by simp
  from lseg_chain [OF tl this] q show ?thesis
    by (simp add: level_nodes_def)
qed

lemma well_formed_skiplist:
  assumes "well_formed s"
  shows "skiplist s (level_addrs s)"
proof -
  from assms have ht: "head_p s \<noteq> tail_p s" and u: "tail_ok s"
    and def: "\<And>l. l \<le> MaxLevel \<Longrightarrow> level_nodes s l \<noteq> None"
    and um: "\<And>l. l \<le> MaxLevel \<Longrightarrow> \<forall>a \<in> set (level_addrs s l). unmarked_at s a"
    and sub: "\<And>l. l < MaxLevel \<Longrightarrow> set (level_addrs s (Suc l)) \<subseteq> set (level_addrs s l)"
    by (auto simp: well_formed_def list_all_iff)
  have "lseg s l (level_addrs s l) (Some (head_p s)) \<and> head_p s \<in> set (level_addrs s l) \<and>
          (\<forall>a \<in> set (level_addrs s l). unmarked_at s a)"
    if "l \<le> MaxLevel" for l
  proof -
    from def [OF that] obtain ns where ns: "level_nodes s l = Some ns" by blast
    from level_nodes_lseg [OF ns ht] ns um [OF that] show ?thesis
      by (simp add: level_addrs_def)
  qed
  with u sub show ?thesis
    by (simp add: skiplist_def)
qed

lemma tail_ok_loadable: "tail_ok s \<Longrightarrow> tail_p s \<noteq> length (heap s)"
  by (auto simp: tail_ok_def load_node_beyond)

lemma pseg_not_tail: "pseg s l as p q \<Longrightarrow> tail_p s \<notin> set as"
  by (induction as arbitrary: p) (auto split: sum.splits)

lemma lseg_old:
  assumes "lseg s l xs p"
  shows "length (heap s) \<notin> set xs"
proof
  assume "length (heap s) \<in> set xs"
  from pseg_loadable [OF assms [unfolded lseg_def] this] show False
    by (simp add: load_next_def load_node_beyond)
qed

lemma push_at_levels:
  assumes wf: "well_formed s" and k: "k \<le> MaxLevel"
    and push: "push_at k item s = Some (Inr s')"
  shows "(\<forall>l \<le> k. \<exists>pre post. pre \<noteq> [] \<and> post \<noteq> [] \<and> level_addrs s l = pre @ post \<and>
            level_addrs s' l = pre @ length (heap s) # post \<and>
            below s item (last pre) \<and> not_below s item (hd post)) \<and>
         (\<forall>b. value_at s' b = (if b = length (heap s) then Some item else value_at s b))"
proof -
  let ?a = "length (heap s)"
  let ?xs = "level_addrs s"
  note sk = well_formed_skiplist [OF wf]
  from push_at_view [OF sk k push] obtain ps ss where
    fa': "\<forall>j \<le> MaxLevel. found_at s item (?xs j) j (ps ! j) (ss ! j)"
    and h: "head_p s' = head_p s" "tail_p s' = tail_p s"
    and v': "\<forall>b j. load_next s' (Some b) j =
         (if j \<le> k \<and> ps ! j = Some b then Inr (Some ?a)
          else if b = ?a then
            (if j \<le> k then Inr (ss ! j)
             else if j \<le> MaxLevel then Inl UninitRead else Inl OutOfBounds)
          else load_next s (Some b) j)"
    and val': "\<forall>b. value_at s' b = (if b = ?a then Some item else value_at s b)"
    by blast
  from fa' have fa: "\<And>j. j \<le> MaxLevel \<Longrightarrow> found_at s item (?xs j) j (ps ! j) (ss ! j)"
    by blast
  note v = v' [rule_format]
  from sk have tl: "tail_p s \<noteq> ?a"
    by (auto simp: skiplist_def dest: tail_ok_loadable)
  have "\<exists>pre post. pre \<noteq> [] \<and> post \<noteq> [] \<and> ?xs l = pre @ post \<and>
          level_addrs s' l = pre @ ?a # post \<and>
          below s item (last pre) \<and> not_below s item (hd post)"
    if l: "l \<le> k" for l
  proof -
    from l k have lm: "l \<le> MaxLevel" by simp
    with sk have seg: "lseg s l (?xs l) (Some (head_p s))"
      by (simp add: skiplist_def)
    from fa [OF lm] obtain P x where P: "ps ! l = Some P" "ss ! l = Some x" "P \<in> set (?xs l)"
      and ld: "load_next s (Some P) l = Inr (Some x)"
      and x: "x \<in> set (?xs l)" and bl: "below s item P" "not_below s item x"
      by (auto simp: found_at_def)
    from lseg_old [OF seg] have na: "?a \<notin> set (?xs l)" .
    with P have Pa: "P \<noteq> ?a" by auto
    have "\<exists>pre post. ?xs l = pre @ P # post \<and>
            lseg s' l (pre @ P # ?a # post) (Some (head_p s))"
      using l P Pa ld tl
      by (intro lseg_spliced [OF seg P(3) na]) (auto simp: v h)
    then obtain pre post where xs: "?xs l = pre @ P # post"
      and seg': "lseg s' l (pre @ P # ?a # post) (Some (head_p s'))"
      by (auto simp: h)
    from seg xs have "pseg s l (P # post) (Some P) (Some (tail_p s))"
      by (auto simp: lseg_def pseg_append)
    with ld have post: "pseg s l post (Some x) (Some (tail_p s))"
      by simp
    from pseg_not_tail [OF seg [unfolded lseg_def]] x have "x \<noteq> tail_p s"
      by auto
    with post have hd: "post \<noteq> []" "hd post = x"
      by (cases post; auto)+
    from seg' obtain as where as: "pre @ P # ?a # post = head_p s' # as"
      by (cases pre) (auto simp: lseg_def)
    with seg' lseg_level_nodes [of s' l as] have "level_addrs s' l = pre @ P # ?a # post"
      by (auto simp: level_addrs_def)
    with xs hd bl show ?thesis
      by (intro exI [of _ "pre @ [P]"] exI [of _ post]) simp
  qed
  with val' show ?thesis by blast
qed

lemma chain_nodes:
  "chain f s l p = Some ns \<Longrightarrow> (a, n) \<in> set ns \<Longrightarrow> load_node s (Some a) = Inr n"
proof (induction f arbitrary: p ns)
  case 0
  then show ?case by simp
next
  case (Suc f)
  show ?case
  proof (cases "p = Some (tail_p s)")
    case True
    with Suc.prems show ?thesis by simp
  next
    case False
    with Suc.prems(1) obtain b m q ns' where
      "p = Some b" "load_node s (Some b) = Inr m" "slot m l = Inr q"
      "chain f s l q = Some ns'" "ns = (b, m) # ns'"
      by (auto split: option.splits sum.splits)
    with Suc.IH [of q ns'] Suc.prems(2) show ?thesis by auto
  qed
qed

lemma level_nodes_values:
  assumes "level_nodes s l = Some ns"
  shows "map (val \<circ> snd) ns = map (\<lambda>a. the (value_at s a)) (map fst ns)"
proof -
  from assms obtain p where "chain (Suc (length (heap s))) s l p = Some ns"
    by (auto simp: level_nodes_def split: sum.splits)
  then have "load_node s (Some a) = Inr n" if "(a, n) \<in> set ns" for a n
    using that by (rule chain_nodes)
  then show ?thesis
    by (auto simp: value_at_def)
qed

lemma bottom_values_addrs:
  "level_nodes s 0 \<noteq> None \<Longrightarrow>
   bottom_values s = Some (map (\<lambda>a. the (value_at s a)) (tl (level_addrs s 0)))"
  by (auto simp: bottom_values_def level_addrs_def level_nodes_values)

lemma insort_between:
  "(\<forall>v \<in> set xs. v < x) \<Longrightarrow> (\<forall>v \<in> set ys. x \<le> v) \<Longrightarrow>
   insort x (xs @ ys) = xs @ x # (ys :: int list)"
proof (induction xs)
  case Nil
  then show ?case by (cases ys) auto
next
  case (Cons a xs)
  then show ?case by auto
qed

lemma push_at_bottom:
  assumes wf: "well_formed s" and so: "bottom_sorted s" and k: "k \<le> MaxLevel"
    and push: "push_at k item s = Some (Inr s')"
  shows "\<exists>vs. bottom_values s = Some vs \<and> bottom_values s' = Some (insort item vs)"
proof -
  let ?a = "length (heap s)"
  let ?V = "\<lambda>a. the (value_at s a)"
  note lv = push_at_levels [OF wf k push]
  from lv have val: "value_at s' b = (if b = ?a then Some item else value_at s b)" for b
    by blast
  from lv have "\<exists>pre post. pre \<noteq> [] \<and> post \<noteq> [] \<and> level_addrs s 0 = pre @ post \<and>
            level_addrs s' 0 = pre @ ?a # post \<and>
            below s item (last pre) \<and> not_below s item (hd post)"
    by blast
  then obtain pre post where
    ne: "pre \<noteq> []" "post \<noteq> []" and A: "level_addrs s 0 = pre @ post"
    and A': "level_addrs s' 0 = pre @ ?a # post"
    and bl: "below s item (last pre)" "not_below s item (hd post)"
    by blast
  from wf have ht: "head_p s \<noteq> tail_p s" and "level_nodes s 0 \<noteq> None"
    by (auto simp: well_formed_def list_all_iff)
  then obtain ns where ns: "level_nodes s 0 = Some ns" by blast
  from level_nodes_lseg [OF ns ht] ns have seg: "lseg s 0 (level_addrs s 0) (Some (head_p s))"
    by (simp add: level_addrs_def)
  from ns A ne obtain pre0 where pre: "pre = head_p s # pre0"
    by (cases pre) (auto simp: level_addrs_def)
  from lseg_distinct [OF seg] A pre have dist: "head_p s \<notin> set pre0" "distinct (pre0 @ post)"
    by auto
  from lseg_old [OF seg] A pre have old: "?a \<notin> set pre0" "?a \<notin> set post"
    by auto
  have vs: "bottom_values s = Some (map ?V pre0 @ map ?V post)"
    using ns A pre by (simp add: bottom_values_addrs)
  from A' have "level_nodes s' 0 \<noteq> None"
    by (auto simp: level_addrs_def split: option.splits)
  then have "bottom_values s' = Some (map (\<lambda>a. the (value_at s' a)) (pre0 @ ?a # post))"
    using A' pre by (simp add: bottom_values_addrs)
  also have "map (\<lambda>a. the (value_at s' a)) (pre0 @ ?a # post) = map ?V pre0 @ item # map ?V post"
    using old by (auto simp: val)
  finally have vs': "bottom_values s' = Some (map ?V pre0 @ item # map ?V post)" .
  from so vs have sorted: "sorted (map ?V pre0 @ map ?V post)"
    by (auto simp: bottom_sorted_def bottom_values_def split: option.splits)
  have lo: "\<forall>v \<in> set (map ?V pre0). v < item"
  proof (cases pre0 rule: rev_cases)
    case Nil
    then show ?thesis by simp
  next
    case (snoc ys y)
    with pre bl(1) dist(1) have "?V y < item"
      by (auto simp: below_def value_at_def split: sum.splits)
    moreover from sorted snoc have "\<forall>v \<in> set (map ?V ys). v \<le> ?V y"
      by (auto simp: sorted_append)
    ultimately show ?thesis
      using snoc by auto
  qed
  have hi: "\<forall>v \<in> set (map ?V post). item \<le> v"
  proof -
    from ne(2) obtain x post' where post: "post = x # post'" by (cases post) auto
    with bl(2) have "item \<le> ?V x"
      by (auto simp: not_below_def value_at_def split: sum.splits)
    moreover from sorted post have "\<forall>v \<in> set (map ?V post'). ?V x \<le> v"
      by (auto simp: sorted_append)
    ultimately show ?thesis
      using post by auto
  qed
  from insort_between [OF lo hi] vs vs' show ?thesis by simp
qed

lemma push_sorted_insert:
  assumes "well_formed s" "bottom_sorted s" "push rng i item s = Some (Inr (i', s'))"
  shows "\<exists>vs. bottom_values s = Some vs \<and> bottom_values s' = Some (insort item vs)"
proof -
  obtain k j where kj: "randomLevel rng i = (k, j)"
    by (cases "randomLevel rng i")
  with randomLevel_le [of rng i] have k: "k \<le> MaxLevel" by simp
  from assms(3) kj have "push_at k item s = Some (Inr s')"
    by (simp add: push_def split: option.splits sum.splits)
  from push_at_bottom [OF assms(1,2) k this] show ?thesis .
qed

text \<open>
  So on a well-formed skip list whose bottom level is in order, a \<^verbatim>\<open>push\<close> that returns
  has inserted its value in order.
\<close>

lemma push_keeps_bottom_order:
  assumes "well_formed s" "bottom_sorted s" "push rng i item s = Some (Inr (i', s'))"
  shows "bottom_sorted s'"
proof -
  from push_sorted_insert [OF assms] obtain vs where
    vs: "bottom_values s = Some vs" "bottom_values s' = Some (insort item vs)"
    by blast
  from assms(2) vs(1) have "sorted vs"
    by (auto simp: bottom_sorted_def bottom_values_def split: option.splits)
  then have "sorted (insort item vs)"
    by (simp add: sorted_insort)
  with vs(2) show ?thesis
    by (auto simp: bottom_sorted_def bottom_values_def split: option.splits)
qed

section \<open>Where the traversal returns\<close>

text \<open>
  The lemmas of this section are about states on which a traversal returns. No sequence
  of operations leads to such a state, see \<open>reachable_is_fresh\<close>, and the states of the
  examples are written out by hand: they say what the code behind the traversal does,
  not what a program that uses the queue can observe.
\<close>

text \<open>
  When \<^verbatim>\<open>push\<close> returns on a well-formed state, the node it allocated holds the value
  and is on every level up to the level chosen, between the nodes that were neighbours
  there before.
\<close>

lemma push_links_every_level:
  assumes "well_formed s" and "push rng i item s = Some (Inr (i', s'))"
  shows "value_at s' (length (heap s)) = Some item \<and>
         (\<forall>l \<le> fst (randomLevel rng i).
            \<exists>pre post. pre \<noteq> [] \<and> level_addrs s l = pre @ post \<and>
              level_addrs s' l = pre @ length (heap s) # post)"
proof -
  obtain k j where kj: "randomLevel rng i = (k, j)"
    by (cases "randomLevel rng i")
  with randomLevel_le [of rng i] have k: "k \<le> MaxLevel" by simp
  from assms(2) kj have "push_at k item s = Some (Inr s')"
    by (simp add: push_def split: option.splits sum.splits)
  from push_at_levels [OF assms(1) k this] kj show ?thesis by fastforce
qed

lemma push_links_every_level_example:
  "well_formed (towers 4 empty_domain [100]) \<and>
   push (\<lambda>n. if n < 2 then 0 else 1) 0 50 (towers 4 empty_domain [100])
     = Some (Inr (3, tower_and_node)) \<and>
   3 \<in> set (level_addrs tower_and_node 2)"
proof -
  have wf: "well_formed (towers 4 empty_domain [100])"
    by code_simp
  have p: "push (\<lambda>n. if n < 2 then 0 else 1) 0 50 (towers 4 empty_domain [100])
             = Some (Inr (3, tower_and_node))"
    by code_simp
  have r: "fst (randomLevel (\<lambda>n. if n < 2 then 0 else 1) 0) = 2"
    by code_simp
  have h: "length (heap (towers 4 empty_domain [100])) = 3"
    by code_simp
  from push_links_every_level [OF wf p, THEN conjunct2, THEN spec, of 2] r h
  have "\<exists>pre post. level_addrs tower_and_node 2 = pre @ 3 # post"
    by auto
  with wf p show ?thesis by auto
qed

text \<open>
  When the head sentinel's \<^verbatim>\<open>next[0]\<close> is the tail sentinel, \<^verbatim>\<open>pop\<close> returns the
  empty indicator and leaves the state as it is. When the first node of the bottom level
  is marked, the compare-and-swap on \<^verbatim>\<open>marked\<close> fails and the loop starts again on the
  same node.
\<close>

lemma pop_on_empty_bottom_level:
  assumes "level_nodes s 0 = Some []"
  shows "pop s = Some (Inr (None, s))"
proof -
  from assms obtain p where p: "load_next s (Some (head_p s)) 0 = Inr p"
    and c: "chain (Suc (length (heap s))) s 0 p = Some []"
    by (auto simp: level_nodes_def split: sum.splits)
  from c have "p = Some (tail_p s)"
    by (auto split: if_splits option.splits sum.splits)
  with p show ?thesis
    by (subst pop.simps) simp
qed

lemma pop_on_marked_only_retries:
  "no_live_entries marked_only \<and> pop marked_only = None"
proof
  show "no_live_entries marked_only"
    by code_simp
  have "pop_retries marked_only"
    by code_simp
  then show "pop marked_only = None"
    by (rule pop_retries_forever)
qed

text \<open>
  Over a run that returns, the counter moves by the number of pushes less the number of
  successful pops, in the arithmetic of \<^verbatim>\<open>size_t\<close>.
\<close>

lemma size_after_run:
  assumes "run rng i s ops = Some (Inr (rs, s'))"
  shows "size_pq s' = size_pq s + of_nat (pushes ops) - of_nat (successes rs) \<and>
         (empty_pq s' \<longleftrightarrow> size_pq s' = 0)"
  using run_count [OF assms] by (simp add: size_pq_def empty_pq_def)

lemma size_after_run_example:
  "run (\<lambda>_. 1) 0 (towers 4 empty_domain [100, 200]) [Push 50, Pop, Pop, Pop]
     = Some (Inr ([Some 50, Some 100, None], two_towers_drained)) \<and>
   size_pq two_towers_drained = 2 + 1 - 2 \<and> \<not> empty_pq two_towers_drained"
proof -
  have r: "run (\<lambda>_. 1) 0 (towers 4 empty_domain [100, 200]) [Push 50, Pop, Pop, Pop]
             = Some (Inr ([Some 50, Some 100, None], two_towers_drained))"
    by code_simp
  from size_after_run [OF r] r show ?thesis
    by (simp add: pushes_def successes_def size_pq_def towers_def)
qed

text \<open>
  \<^verbatim>\<open>push\<close> allocates after its first \<^verbatim>\<open>findNode\<close> has returned and before the
  compare-and-swap on the bottom level. It is \<^verbatim>\<open>noexcept\<close>: when the allocation fails
  there, the program is terminated.
\<close>

lemma push_alloc_failure_terminates:
  assumes "mem_left s = 0"
    and "findNode s item local_array local_array = Some (Inr r)"
  shows "push rng i item s = Some (Inl Terminated)"
proof -
  obtain k j where k: "randomLevel rng i = (k, j)"
    by (cases "randomLevel rng i")
  obtain found ps ss s1 where "r = (found, ps, ss, s1)" by (cases r)
  with assms have "push_at k item s = Some (Inl Terminated)"
    by (simp add: push_at_alloc_failure)
  with k show ?thesis
    by (simp add: push_def)
qed

lemma push_alloc_failure_example:
  "mem_left (towers 0 empty_domain [100]) = 0 \<and>
   findNode (towers 0 empty_domain [100]) 50 local_array local_array
     = Some (Inr (False, replicate 17 (Some 0), replicate 17 (Some 2),
                  towers 0 empty_domain [100])) \<and>
   push (\<lambda>_. 1) 0 50 (towers 0 empty_domain [100]) = Some (Inl Terminated)"
proof -
  have m: "mem_left (towers 0 empty_domain [100]) = 0"
    by (simp add: towers_def)
  have f: "findNode (towers 0 empty_domain [100]) 50 local_array local_array
             = Some (Inr (False, replicate 17 (Some 0), replicate 17 (Some 2),
                          towers 0 empty_domain [100]))"
    by code_simp
  from push_alloc_failure_terminates [OF m f, of "\<lambda>_. 1" 0] m f show ?thesis
    by simp
qed

text \<open>
  The level \<^verbatim>\<open>randomLevel\<close> returns is at most \<open>MaxLevel\<close>, whatever the generator
  yields, and a \<^verbatim>\<open>push\<close> with that level never indexes \<^verbatim>\<open>next[]\<close>, \<^verbatim>\<open>preds\<close> or
  \<^verbatim>\<open>succs\<close> beyond \<open>MaxLevel\<close>, in any state. The cap is what keeps the indices in
  bounds: a level of 17 writes past the arrays. A generator that always yields a sample
  below \<open>Probability\<close> is stopped at \<open>MaxLevel\<close>, after 17 samples; on the queue of one
  tower the node of full height is then linked on all 17 levels, in front of the tower.
\<close>

lemma level_and_indices_in_bounds:
  "fst (randomLevel rng i) \<le> MaxLevel \<and> push rng i item s \<noteq> Some (Inl OutOfBounds)"
proof
  show le: "fst (randomLevel rng i) \<le> MaxLevel"
    by (rule randomLevel_le)
  obtain k j where k: "randomLevel rng i = (k, j)"
    by (cases "randomLevel rng i")
  with le have "k \<le> MaxLevel" by simp
  then have "push_at k item s \<noteq> Some (Inl OutOfBounds)"
    using push_loop_in_bounds_aux [of s item k local_array local_array]
    by (auto simp: push_at_def local_array_def)
  with k show "push rng i item s \<noteq> Some (Inl OutOfBounds)"
    by (auto simp: push_def split: option.splits sum.splits)
qed

lemma push_at_above_MaxLevel:
  "push_at 17 50 (towers 4 empty_domain [100]) = Some (Inl OutOfBounds)"
  by code_simp

lemma forced_tall_level: "randomLevel (\<lambda>_. 0) 0 = (MaxLevel, 17)"
  by code_simp

lemma forced_tall_push:
  "(case push (\<lambda>_. 0) 0 50 (towers 4 empty_domain [100]) of
      Some (Inr (j, s)) \<Rightarrow> map (\<lambda>l. map_option (map fst) (level_nodes s l)) [0..<Suc MaxLevel]
    | _ \<Rightarrow> [])
   = replicate 17 (Some [3, 2])"
  by code_simp

text \<open>
  On the states that operations do lead to, the bottom level holds no entry at all.
\<close>

lemma no_live_entries_construct: "no_live_entries (construct d mem)"
  by (simp add: no_live_entries_def level_nodes_construct)

lemma reachable_no_live_entries:
  assumes "reachable s"
  shows "no_live_entries s"
proof -
  from reachable_is_fresh [OF assms] obtain d mem where "s = construct d mem" by blast
  then show ?thesis by (simp add: no_live_entries_construct)
qed

section \<open>The claims\<close>

text \<open>
  C1. Claimed: values pushed in any order into a freshly constructed queue come back from
  as many pops as the sorted permutation; pushing 3, 1, 4, 1, 5, 9, 2, 6 and popping 8
  times returns 1, 1, 2, 3, 4, 5, 6, 9. On the code this run ends in the first push:
  the traversal dereferences the null successor of the tail sentinel.
\<close>

theorem sorted_drain_scenario_faults:
  "run rng i (construct d mem) (map Push [3, 1, 4, 1, 5, 9, 2, 6] @ replicate 8 Pop)
     = Some (Inl NullDeref)"
  by (simp add: push_construct)

text \<open>
  C2. Claimed: over every sequence of pushes and pops from a freshly constructed queue the
  pushed values are exactly the popped ones together with those still in the queue, and
  each successful pop retires the node it marked. On the code a push followed by a pop
  ends in the push, and the pushed value is in neither.
\<close>

theorem push_then_pop_faults:
  "run rng i (construct d mem) [Push 7, Pop] = Some (Inl NullDeref)"
  by (simp add: push_construct)

text \<open>
  Where \<^verbatim>\<open>pop\<close> does return a value, it does not retire the node it marked: the
  traversal has already unlinked that node, the first compare-and-swap of the
  unlinking loop fails and overwrites \<^verbatim>\<open>node\<close> with the successor, and the loop goes
  on to unlink, and \<^verbatim>\<open>pop\<close> to retire, the successor. On the queue of the two
  towers 100 and 200 the pop of 100 retires the node of 200, which is not marked, and
  leaves the bottom level without it.
\<close>

lemma pop_retires_unmarked_successor:
  "(case pop (towers 4 empty_domain [100, 200]) of
      Some (Inr (r, s)) \<Rightarrow>
        (r, map rptr (retired (domain_p s)), map_option (map fst) (level_nodes s 0),
         map (map_option marked) (drop 2 (heap s)))
    | _ \<Rightarrow> (None, [], None, []))
   = (Some 100, [Some 3], Some [], [Some True, Some False])"
  by code_simp


text \<open>
  C3. Claimed: after pushing 5 three times into a fresh queue, three pops return 5 and a
  fourth returns the empty indicator. On the code the run ends in the first push.
\<close>

theorem triple_five_scenario_faults:
  "run rng i (construct d mem) [Push 5, Push 5, Push 5, Pop, Pop, Pop, Pop]
     = Some (Inl NullDeref)"
  by (simp add: push_construct)

text \<open>
  C4. Claimed: on every reachable state each operation, the find traversal included,
  keeps the bottom level in non-decreasing order. The freshly constructed queue is
  reachable and its bottom level is in order, and the find traversal on it, for every
  key, faults instead of returning a state.
\<close>

theorem find_on_fresh_queue_faults:
  "bottom_sorted (construct d mem) \<and>
   findNode (construct d mem) key local_array local_array = Some (Inl NullDeref)"
  by (simp add: bottom_sorted_construct findNode_construct)

text \<open>
  C5. Claimed: when \<^verbatim>\<open>push\<close> returns, the new node of height \<open>k\<close> is linked at every
  level up to \<open>k\<close>. On the code \<^verbatim>\<open>push\<close> returns on no state that operations lead
  to, for no value and no level chosen: it faults in its first traversal, before the
  node is allocated, and links nothing.
\<close>

theorem push_on_reachable_queue_faults:
  assumes "reachable s"
  shows "push rng i item s = Some (Inl NullDeref)"
proof -
  from reachable_is_fresh [OF assms] obtain d mem where "s = construct d mem" by blast
  then show ?thesis by (simp add: push_construct)
qed

theorem push_on_reachable_queue_faults_witness:
  "push (\<lambda>_. 1) 0 5 (construct empty_domain 4) = Some (Inl NullDeref)"
  by (rule push_on_reachable_queue_faults [OF reachable.fresh])

text \<open>
  C7. On every state that operations lead to, the freshly constructed queue among
  them: when the bottom level holds no live entry, \<^verbatim>\<open>pop\<close> returns the empty indicator
  and leaves the state as it is.
\<close>

theorem pop_on_empty_queue:
  assumes "reachable s" and "no_live_entries s"
  shows "pop s = Some (Inr (None, s))"
proof -
  from reachable_is_fresh [OF assms(1)] obtain d mem where "s = construct d mem" by blast
  then show ?thesis by (simp add: pop_construct)
qed

theorem pop_on_empty_queue_witness:
  "no_live_entries (construct empty_domain 8) \<and>
   pop (construct empty_domain 8) = Some (Inr (None, construct empty_domain 8))"
proof -
  have r: "reachable (construct empty_domain 8)"
    by (rule reachable.fresh)
  have n: "no_live_entries (construct empty_domain 8)"
    by (rule no_live_entries_construct)
  from pop_on_empty_queue [OF r n] n show ?thesis
    by simp
qed

text \<open>
  C10. Claimed: \<^verbatim>\<open>empty\<close> holds exactly when \<^verbatim>\<open>size\<close> is 0, and after \<open>n\<close> pushes
  and \<open>m\<close> successful pops in single-threaded use \<^verbatim>\<open>size\<close> is \<open>n - m\<close>. In a freshly
  constructed queue the counter is 0 and \<^verbatim>\<open>empty\<close> holds. From there every
  single-threaded use with a push in it ends in the first push, whatever comes before
  and after it, so \<^verbatim>\<open>size\<close> is \<open>n - m\<close> after no use with \<open>n\<close> above 0.
\<close>

theorem size_after_push_faults:
  "size_pq (construct d mem) = 0 \<and> empty_pq (construct d mem) \<and>
   run rng i (construct d mem) (ops @ Push v # ops') = Some (Inl NullDeref)"
proof -
  have "\<exists>x. Push x \<in> set (ops @ Push v # ops')"
    by auto
  then show ?thesis
    by (simp only: run_construct) (simp add: size_pq_def empty_pq_def)
qed

text \<open>
  C8. Claimed: the level chosen is in \<open>[0, MaxLevel]\<close>, so every index used during
  insertion is in bounds and a forced-tall tower still inserts correctly. The bounds
  hold, see \<open>level_and_indices_in_bounds\<close>. The forced-tall tower is not inserted: with
  a generator that always yields a sample below \<open>Probability\<close> the level is \<open>MaxLevel\<close>,
  and the push into a freshly constructed queue faults in its traversal.
\<close>

theorem forced_tall_push_faults:
  "fst (randomLevel (\<lambda>_. 0) 0) = MaxLevel \<and>
   push (\<lambda>_. 0) 0 item (construct d mem) = Some (Inl NullDeref)"
  by (simp add: forced_tall_level push_construct)

text \<open>
  C9. \<^verbatim>\<open>scan\<close> keeps exactly the retired records whose pointer is in one of the
  hazard slots that are not null, and calls the deleter of every other record, from the
  front of the list to its end. \<^verbatim>\<open>retire\<close> appends the record and scans exactly when
  the list is then longer than the number of hazard slots.
\<close>

theorem retire_and_scan:
  assumes "length (hp d) = MAX_HAZARD_POINTERS"
  shows "scan call d w =
           (d\<lparr>retired := filter (\<lambda>r. rptr r \<in> set (filter (\<lambda>p. p \<noteq> None) (hp d))) (retired d)\<rparr>,
            fold (\<lambda>r. call (deleter r) (rptr r))
              (filter (\<lambda>r. rptr r \<notin> set (filter (\<lambda>p. p \<noteq> None) (hp d))) (retired d)) w) \<and>
         retire call d p del w =
           (if MAX_HAZARD_POINTERS < length (retired d) + 1
            then scan call (d\<lparr>retired := retired d @ [\<lparr>rptr = p, deleter = del\<rparr>]\<rparr>) w
            else (d\<lparr>retired := retired d @ [\<lparr>rptr = p, deleter = del\<rparr>]\<rparr>, w))"
proof -
  have h: "scan_hazards (hp d) 0 = filter (\<lambda>p. p \<noteq> None) (hp d)"
    using scan_hazards_drop [OF assms, of 0] by simp
  show ?thesis
    by (simp add: scan_def retire_def h scan_retired_eq Let_def)
qed

theorem retire_and_scan_witness:
  "length (hp busy_domain) = MAX_HAZARD_POINTERS \<and>
   retire log_call busy_domain (Some 9) () [] =
     (busy_domain\<lparr>retired := [\<lparr>rptr = Some 5, deleter = ()\<rparr>]\<rparr>,
      Some 6 # replicate 126 (Some 7) @ [Some 9])"
proof -
  have l: "length (hp busy_domain) = MAX_HAZARD_POINTERS"
    by code_simp
  have e: "(if MAX_HAZARD_POINTERS < length (retired busy_domain) + 1
            then (let d1 = busy_domain\<lparr>retired := retired busy_domain @ [\<lparr>rptr = Some 9, deleter = ()\<rparr>]\<rparr>
                  in (d1\<lparr>retired := filter (\<lambda>r. rptr r \<in> set (filter (\<lambda>p. p \<noteq> None) (hp d1))) (retired d1)\<rparr>,
                      fold (\<lambda>r. log_call (deleter r) (rptr r))
                        (filter (\<lambda>r. rptr r \<notin> set (filter (\<lambda>p. p \<noteq> None) (hp d1))) (retired d1)) []))
            else (busy_domain\<lparr>retired := retired busy_domain @ [\<lparr>rptr = Some 9, deleter = ()\<rparr>]\<rparr>, []))
           = (busy_domain\<lparr>retired := [\<lparr>rptr = Some 5, deleter = ()\<rparr>]\<rparr>,
              Some 6 # replicate 126 (Some 7) @ [Some 9])"
    by code_simp
  have l1: "length (hp (busy_domain\<lparr>retired := retired busy_domain @ [\<lparr>rptr = Some 9, deleter = ()\<rparr>]\<rparr>)) = MAX_HAZARD_POINTERS"
    using l by simp
  from retire_and_scan [OF l, of log_call "[]" "Some 9" "()"]
       retire_and_scan [OF l1, of log_call "[]" "Some 9" "()"] e l
  show ?thesis
    by (simp only: Let_def)
qed

end
